theory Spec2Isabelle
  imports Main "HOL-Library.List_Lexorder" "HOL-Library.Char_ord" "HOL-Library.AList"
begin

section \<open>DoorPi: snapshot directory and PJSUA2 event helper\<close>

text \<open>
  A shallow embedding of \<^verbatim>\<open>doorpi/actions/snapshot.py\<close> and of
  \<^verbatim>\<open>doorpi/sipphone/from_pjsua2/__init__.py\<close>. The Python code works on a
  filesystem, on the DoorPi configuration, on a logger and on the event handler; all
  four are fields of an explicit state. An exception is a value \<open>Inl e\<close>, returned
  together with the state at the moment it was raised, since what the code did before
  raising stays done.
\<close>

subsection \<open>Paths\<close>

text \<open>
  A \<^verbatim>\<open>pathlib.Path\<close> is its tuple of parts. Python compares two paths by comparing
  these tuples, that is lexicographically, the parts as strings; this is the order of
  \<open>string list\<close> given by the lexicographic order on lists and the order on characters.
  Python orders strings by code point, which is the order of their UTF-8 bytes.
\<close>

type_synonym path = "string list"

definition is_root :: "path \<Rightarrow> bool" where
  "is_root p \<longleftrightarrow> p = [] \<or> p = [''/''] \<or> p = [''//'']"

text \<open>Splitting a string at every \<open>/\<close>.\<close>

fun split_sep :: "string \<Rightarrow> string \<Rightarrow> string list" where
  "split_sep acc [] = [acc]"
| "split_sep acc (c # cs) =
     (if c = CHR ''/'' then acc # split_sep [] cs else split_sep (acc @ [c]) cs)"

text \<open>
  \<^verbatim>\<open>pathlib.Path(s)\<close> on POSIX: a leading slash gives the root part (exactly two
  leading slashes give the root \<open>//\<close>), empty parts and \<open>.\<close> parts are dropped.
\<close>

definition root_of :: "string \<Rightarrow> path" where
  "root_of s =
     (let n = length (takeWhile (\<lambda>c. c = CHR ''/'') s)
      in if n = 0 then [] else if n = 2 then [''//''] else [''/''])"

definition Path :: "string \<Rightarrow> path" where
  "Path s = root_of s @ filter (\<lambda>c. c \<noteq> [] \<and> c \<noteq> ''.'') (split_sep [] s)"

text \<open>\<^verbatim>\<open>str(path)\<close>: the parts joined by \<open>/\<close> after the root; \<open>.\<close> for no part.\<close>

fun join_sep :: "string list \<Rightarrow> string" where
  "join_sep [] = []"
| "join_sep [x] = x"
| "join_sep (x # y # zs) = x @ ''/'' @ join_sep (y # zs)"

definition str_path :: "path \<Rightarrow> string" where
  "str_path p =
     (case p of
        [] \<Rightarrow> ''.''
      | r # cs \<Rightarrow> if r = ''/'' \<or> r = ''//'' then r @ join_sep cs else join_sep (r # cs))"

text \<open>\<^verbatim>\<open>path.name\<close>: the last part, empty for a path without parts or a root.\<close>

definition name :: "path \<Rightarrow> string" where
  "name p = (if is_root p then [] else last p)"

subsection \<open>The filesystem\<close>

text \<open>
  The filesystem gives a node to finitely many paths; the roots and the working
  directory (the path without parts) are directories that are always there. The order
  of the association list is the order in which \<^verbatim>\<open>iterdir\<close> yields the entries,
  which the operating system chooses. A regular file carries its content. In a
  filesystem as the system keeps it a path names one node: the paths of the list are
  distinct.
\<close>

datatype node = Directory | RegularFile string | Special

type_synonym filesystem = "(path \<times> node) list"

datatype error =
    ValueError string
  | OSError string
  | RequestException
  | PiCameraError

datatype log_record =
    Deleting_old_snapshot path
  | Could_not_clean_up_snapshot string

record state =
  snapshot_keep :: int
  snapshot_path :: "string option"
  last_snapshot :: "string option"
  fs :: filesystem
  unlink_denied :: "path set"
  log :: "log_record list"

text \<open>
  \<open>snapshot_keep\<close> is what \<^verbatim>\<open>config.get_int\<close> returns, \<open>snapshot_path\<close> what
  \<^verbatim>\<open>config.get_string_parsed\<close> returns (\<open>None\<close> when the key is unset),
  \<open>last_snapshot\<close> what \<^verbatim>\<open>config.set_value\<close> last stored. \<open>unlink_denied\<close> holds
  the paths whose removal the operating system refuses.
\<close>

definition exists_path :: "filesystem \<Rightarrow> path \<Rightarrow> bool" where
  "exists_path f p \<longleftrightarrow> is_root p \<or> map_of f p \<noteq> None"

definition is_dir :: "filesystem \<Rightarrow> path \<Rightarrow> bool" where
  "is_dir f p \<longleftrightarrow> is_root p \<or> map_of f p = Some Directory"

definition is_file :: "filesystem \<Rightarrow> path \<Rightarrow> bool" where
  "is_file f p \<longleftrightarrow> \<not> is_root p \<and> (case map_of f p of Some (RegularFile _) \<Rightarrow> True | _ \<Rightarrow> False)"

text \<open>
  \<^verbatim>\<open>path.mkdir(parents=True, exist_ok=True)\<close>: walking down from the root, a part
  that is a directory is kept, a part that is missing is created, and a part that exists
  and is no directory makes the call fail. \<open>pre\<close> is the path walked so far.
\<close>

fun mkdir_parents :: "path \<Rightarrow> path \<Rightarrow> filesystem \<Rightarrow> error + filesystem" where
  "mkdir_parents pre [] f = Inr f"
| "mkdir_parents pre (c # cs) f =
     (let q = pre @ [c]
      in if is_dir f q then mkdir_parents q cs f
         else if exists_path f q then Inl (OSError ''File exists'')
         else mkdir_parents q cs (f @ [(q, Directory)]))"

text \<open>\<^verbatim>\<open>path.iterdir()\<close>: the entries whose parent is the path, in the order of the system.\<close>

definition iterdir :: "path \<Rightarrow> filesystem \<Rightarrow> error + path list" where
  "iterdir b f =
     (if is_dir f b
      then Inr (map fst (filter (\<lambda>(p, n). p \<noteq> [] \<and> \<not> is_root p \<and> butlast p = b) f))
      else Inl (OSError ''Not a directory''))"

text \<open>
  \<^verbatim>\<open>path.unlink()\<close>: fails on a missing path, on a directory and on a path whose
  removal is refused; removes the entry otherwise.
\<close>

definition unlink :: "path \<Rightarrow> state \<Rightarrow> (error + unit) \<times> state" where
  "unlink p s =
     (case map_of (fs s) p of
        None \<Rightarrow> (Inl (OSError ''No such file or directory''), s)
      | Some Directory \<Rightarrow> (Inl (OSError ''Is a directory''), s)
      | Some _ \<Rightarrow>
          if p \<in> unlink_denied s then (Inl (OSError ''Permission denied''), s)
          else (Inr (), s\<lparr>fs := AList.delete p (fs s)\<rparr>))"

subsection \<open>SnapshotAction\<close>

text \<open>
  \<^verbatim>\<open>get_base_path\<close>: \<^verbatim>\<open>if not path: raise ValueError(...)\<close> rejects the unset and
  the empty path before the filesystem is touched.
\<close>

definition get_base_path :: "state \<Rightarrow> (error + path) \<times> state" where
  "get_base_path s =
     (case snapshot_path s of
        None \<Rightarrow> (Inl (ValueError ''snapshot_path must not be empty''), s)
      | Some str \<Rightarrow>
          if str = [] then (Inl (ValueError ''snapshot_path must not be empty''), s)
          else (let p = Path str
                in case mkdir_parents [] p (fs s) of
                     Inl e \<Rightarrow> (Inl e, s)
                   | Inr f \<Rightarrow> (Inr p, s\<lparr>fs := f\<rparr>)))"

text \<open>
  \<^verbatim>\<open>list_all\<close>: \<^verbatim>\<open>sorted(f for f in cls.get_base_path().iterdir() if f.is_file())\<close>.
\<close>

definition list_all :: "state \<Rightarrow> (error + path list) \<times> state" where
  "list_all s =
     (case get_base_path s of
        (Inl e, s1) \<Rightarrow> (Inl e, s1)
      | (Inr b, s1) \<Rightarrow>
          (case iterdir b (fs s1) of
             Inl e \<Rightarrow> (Inl e, s1)
           | Inr ps \<Rightarrow> (Inr (sort (filter (is_file (fs s1)) ps)), s1)))"

text \<open>
  A Python slice \<^verbatim>\<open>xs[lo:hi]\<close>: a negative bound counts from the end, and every bound
  is clamped to the list.
\<close>

definition slice_bound :: "int \<Rightarrow> nat \<Rightarrow> nat" where
  "slice_bound i n = (if i < 0 then nat (max 0 (int n + i)) else min (nat i) n)"

definition py_slice :: "'a list \<Rightarrow> int \<Rightarrow> int \<Rightarrow> 'a list" where
  "py_slice xs lo hi =
     (let a = slice_bound lo (length xs); b = slice_bound hi (length xs)
      in take (b - a) (drop a xs))"

text \<open>
  The loop of \<^verbatim>\<open>cleanup\<close>. The \<^verbatim>\<open>except OSError\<close> clause catches the errors of
  the operating system and no other; an error it does not catch leaves the loop.
\<close>

fun cleanup_loop :: "path list \<Rightarrow> state \<Rightarrow> (error + unit) \<times> state" where
  "cleanup_loop [] s = (Inr (), s)"
| "cleanup_loop (fi # fis) s =
     (let s1 = s\<lparr>log := log s @ [Deleting_old_snapshot fi]\<rparr>
      in case unlink fi s1 of
           (Inr u, s2) \<Rightarrow> cleanup_loop fis s2
         | (Inl (OSError m), s2) \<Rightarrow>
             cleanup_loop fis (s2\<lparr>log := log s2 @ [Could_not_clean_up_snapshot (name fi)]\<rparr>)
         | (Inl e, s2) \<Rightarrow> (Inl e, s2))"

definition cleanup :: "state \<Rightarrow> (error + unit) \<times> state" where
  "cleanup s =
     (let keep = snapshot_keep s
      in if keep \<le> 0 then (Inr (), s)
         else case list_all s of
                (Inl e, s1) \<Rightarrow> (Inl e, s1)
              | (Inr files, s1) \<Rightarrow> cleanup_loop (py_slice files 0 (- keep)) s1)"

subsection \<open>The next snapshot's path\<close>

text \<open>
  What \<^verbatim>\<open>datetime.datetime.now()\<close> returns. \<^verbatim>\<open>strftime\<close> writes the year in
  decimal (four digits from the year 1000 on) and every other field in two digits.
\<close>

record datetime =
  year :: nat
  month :: nat
  day :: nat
  hour :: nat
  minute :: nat
  second :: nat
  microsecond :: nat

definition digit :: "nat \<Rightarrow> char" where
  "digit n = ''0123456789'' ! (n mod 10)"

function dec :: "nat \<Rightarrow> string" where
  "dec n = (if n < 10 then [digit n] else dec (n div 10) @ [digit n])"
  by pat_completeness auto
termination
  by (relation "measure id") auto

declare dec.simps [simp del]

definition two_digits :: "nat \<Rightarrow> string" where
  "two_digits n = [digit (n div 10), digit n]"

text \<open>\<^verbatim>\<open>now.strftime("%Y-%m-%d %H:%M:%S.jpg")\<close>\<close>

definition strftime_jpg :: "datetime \<Rightarrow> string" where
  "strftime_jpg t =
     dec (year t) @ ''-'' @ two_digits (month t) @ ''-'' @ two_digits (day t) @ '' ''
     @ two_digits (hour t) @ '':'' @ two_digits (minute t) @ '':'' @ two_digits (second t)
     @ ''.jpg''"

text \<open>
  \<^verbatim>\<open>get_next_path\<close>; the first argument is the reading of the clock. The file name
  has no \<open>/\<close>, so \<^verbatim>\<open>base / name\<close> adds one part to the base path.
\<close>

definition get_next_path :: "datetime \<Rightarrow> state \<Rightarrow> (error + path) \<times> state" where
  "get_next_path now s =
     (case get_base_path s of
        (Inl e, s1) \<Rightarrow> (Inl e, s1)
      | (Inr b, s1) \<Rightarrow>
          (let p = b @ [strftime_jpg now]
           in (Inr p, s1\<lparr>last_snapshot := Some (str_path p)\<rparr>)))"

subsection \<open>Writing a file\<close>

text \<open>
  \<^verbatim>\<open>path.open("wb")\<close> creates the file or empties it; it fails on a directory and
  where the parent is no directory.
\<close>

definition open_wb :: "path \<Rightarrow> state \<Rightarrow> (error + unit) \<times> state" where
  "open_wb p s =
     (if is_dir (fs s) p then (Inl (OSError ''Is a directory''), s)
      else if \<not> is_dir (fs s) (butlast p) then (Inl (OSError ''No such file or directory''), s)
      else case map_of (fs s) p of
             Some Special \<Rightarrow> (Inr (), s)
           | _ \<Rightarrow> (Inr (), s\<lparr>fs := AList.update p (RegularFile []) (fs s)\<rparr>))"

definition write_chunk :: "path \<Rightarrow> string \<Rightarrow> state \<Rightarrow> state" where
  "write_chunk p c s =
     (case map_of (fs s) p of
        Some (RegularFile old) \<Rightarrow> s\<lparr>fs := AList.update p (RegularFile (old @ c)) (fs s)\<rparr>
      | _ \<Rightarrow> s)"

fun write_chunks :: "path \<Rightarrow> string list \<Rightarrow> state \<Rightarrow> state" where
  "write_chunks p [] s = s"
| "write_chunks p (c # cs) s = write_chunks p cs (write_chunk p c s)"

subsection \<open>URLSnapshotAction\<close>

text \<open>
  What \<^verbatim>\<open>requests.get(url, stream=True)\<close> gives: it raises, or it returns a response
  whose \<^verbatim>\<open>iter_content\<close> yields chunks and then either ends or raises (\<open>broken\<close>).
\<close>

record response =
  chunks :: "string list"
  broken :: bool

definition url_snapshot_call ::
  "error + response \<Rightarrow> datetime \<Rightarrow> state \<Rightarrow> (error + unit) \<times> state" where
  "url_snapshot_call got now s =
     (case got of
        Inl e \<Rightarrow> (Inl e, s)
      | Inr resp \<Rightarrow>
          (case get_next_path now s of
             (Inl e, s1) \<Rightarrow> (Inl e, s1)
           | (Inr p, s1) \<Rightarrow>
               (case open_wb p s1 of
                  (Inl e, s2) \<Rightarrow> (Inl e, s2)
                | (Inr u, s2) \<Rightarrow>
                    (let s3 = write_chunks p (chunks resp) s2
                     in if broken resp then (Inl RequestException, s3)
                        else cleanup s3))))"

subsection \<open>PicamSnapshotAction\<close>

text \<open>
  What the camera does: \<^verbatim>\<open>picamera.PiCamera()\<close> raises, or \<^verbatim>\<open>cam.capture(path)\<close>
  raises, having left nothing or some bytes at the path, or the capture writes the image.
\<close>

datatype camera =
    CameraUnavailable
  | CaptureFailed "string option"
  | Captured string

definition picam_snapshot_call :: "camera \<Rightarrow> datetime \<Rightarrow> state \<Rightarrow> (error + unit) \<times> state" where
  "picam_snapshot_call cam now s =
     (case cam of
        CameraUnavailable \<Rightarrow> (Inl PiCameraError, s)
      | CaptureFailed left \<Rightarrow>
          (case get_next_path now s of
             (Inl e, s1) \<Rightarrow> (Inl e, s1)
           | (Inr p, s1) \<Rightarrow>
               (case left of
                  None \<Rightarrow> (Inl PiCameraError, s1)
                | Some bytes \<Rightarrow>
                    (case open_wb p s1 of
                       (Inl e, s2) \<Rightarrow> (Inl e, s2)
                     | (Inr u, s2) \<Rightarrow> (Inl PiCameraError, write_chunk p bytes s2))))
      | Captured img \<Rightarrow>
          (case get_next_path now s of
             (Inl e, s1) \<Rightarrow> (Inl e, s1)
           | (Inr p, s1) \<Rightarrow>
               (case open_wb p s1 of
                  (Inl e, s2) \<Rightarrow> (Inl e, s2)
                | (Inr u, s2) \<Rightarrow> cleanup (write_chunk p img s2))))"

subsection \<open>The PJSUA2 event helper\<close>

text \<open>
  The event handler records what it is asked to fire. In Python the payload of an event
  may be \<^verbatim>\<open>None\<close>, so the recorded payload is an optional dictionary.
\<close>

datatype delivery = Asynchronous | Synchronous

record event =
  event_delivery :: delivery
  event_name :: string
  event_source :: string
  event_extra :: "(string \<rightharpoonup> string) option"

definition EVENT_SOURCE :: string where
  "EVENT_SOURCE = ''sipphone.pjsua''"

definition eh_fire_event ::
  "string \<Rightarrow> string \<Rightarrow> (string \<rightharpoonup> string) option \<Rightarrow> event list \<Rightarrow> event list" where
  "eh_fire_event n src ex fired =
     fired @ [\<lparr>event_delivery = Asynchronous, event_name = n, event_source = src, event_extra = ex\<rparr>]"

definition eh_fire_event_sync ::
  "string \<Rightarrow> string \<Rightarrow> (string \<rightharpoonup> string) option \<Rightarrow> event list \<Rightarrow> event list" where
  "eh_fire_event_sync n src ex fired =
     fired @ [\<lparr>event_delivery = Synchronous, event_name = n, event_source = src, event_extra = ex\<rparr>]"

text \<open>
  \<^verbatim>\<open>fire_event(event_name, async_only=False, *, remote_uri=None)\<close>
\<close>

definition fire_event :: "string \<Rightarrow> bool \<Rightarrow> string option \<Rightarrow> event list \<Rightarrow> event list" where
  "fire_event n async_only remote_uri fired =
     (let extra = (case remote_uri of
                     Some uri \<Rightarrow> [''remote_uri'' \<mapsto> uri]
                   | None \<Rightarrow> Map.empty);
          fired1 = eh_fire_event n EVENT_SOURCE (Some extra) fired
      in if \<not> async_only then eh_fire_event_sync (n @ ''_S'') EVENT_SOURCE (Some extra) fired1
         else fired1)"

subsection \<open>Notions of the statements\<close>

text \<open>
  \<open>blocked\<close> says that \<^verbatim>\<open>mkdir\<close> cannot succeed: on the way down the path there is
  a node that is no directory.
\<close>

fun blocked :: "path \<Rightarrow> path \<Rightarrow> filesystem \<Rightarrow> bool" where
  "blocked pre [] f = False"
| "blocked pre (c # cs) f =
     (let q = pre @ [c] in (exists_path f q \<and> \<not> is_dir f q) \<or> blocked q cs f)"

text \<open>The list that \<^verbatim>\<open>list_all\<close> computes from the base path and the filesystem.\<close>

definition snapshots :: "path \<Rightarrow> filesystem \<Rightarrow> path list" where
  "snapshots b f =
     sort (filter (is_file f) (map fst (filter (\<lambda>(p, n). p \<noteq> [] \<and> \<not> is_root p \<and> butlast p = b) f)))"

text \<open>
  What one turn of the loop of \<^verbatim>\<open>cleanup\<close> logs for a file: the attempt, and the error
  with the file's name when the removal is refused.
\<close>

definition attempt_log :: "path set \<Rightarrow> path \<Rightarrow> log_record list" where
  "attempt_log denied p =
     (if p \<in> denied then [Deleting_old_snapshot p, Could_not_clean_up_snapshot (name p)]
      else [Deleting_old_snapshot p])"

text \<open>Two readings of the clock within one second.\<close>

definition same_second :: "datetime \<Rightarrow> datetime \<Rightarrow> bool" where
  "same_second t1 t2 \<longleftrightarrow>
     year t1 = year t2 \<and> month t1 = month t2 \<and> day t1 = day t2
     \<and> hour t1 = hour t2 \<and> minute t1 = minute t2 \<and> second t1 = second t2"

text \<open>
  \<open>removable\<close> says that \<^verbatim>\<open>unlink\<close> succeeds on a path: the path is there, is no
  directory, and its removal is not refused.
\<close>

definition removable :: "state \<Rightarrow> path \<Rightarrow> bool" where
  "removable s p = (case fst (unlink p s) of Inl e \<Rightarrow> False | Inr u \<Rightarrow> True)"

text \<open>
  What the loop of \<^verbatim>\<open>cleanup\<close> logs for a list of candidates, told from the state
  before the loop: for each candidate the attempt, followed by the error with the file's
  name unless the file is removable and was not met earlier in the list (\<open>done\<close>).
\<close>

fun attempts_log :: "state \<Rightarrow> path list \<Rightarrow> path list \<Rightarrow> log_record list" where
  "attempts_log s done [] = []"
| "attempts_log s done (p # ps) =
     (if removable s p \<and> p \<notin> set done then [Deleting_old_snapshot p]
      else [Deleting_old_snapshot p, Could_not_clean_up_snapshot (name p)])
     @ attempts_log s (done @ [p]) ps"

text \<open>The filesystem without the candidates whose removal succeeds.\<close>

definition remaining :: "state \<Rightarrow> path list \<Rightarrow> filesystem" where
  "remaining s ps = filter (\<lambda>(q, n). \<not> (q \<in> set ps \<and> removable s q)) (fs s)"

text \<open>The paths of the attempts that a log records, in the order of the log.\<close>

fun attempted :: "log_record list \<Rightarrow> path list" where
  "attempted [] = []"
| "attempted (Deleting_old_snapshot p # rs) = p # attempted rs"
| "attempted (Could_not_clean_up_snapshot n # rs) = attempted rs"

text \<open>
  A reading of the clock as \<^verbatim>\<open>datetime.now()\<close> gives it: every field in its range, the
  year of four digits.
\<close>

definition clock_reading :: "datetime \<Rightarrow> bool" where
  "clock_reading t \<longleftrightarrow>
     1000 \<le> year t \<and> year t \<le> 9999 \<and> 1 \<le> month t \<and> month t \<le> 12
     \<and> 1 \<le> day t \<and> day t \<le> 31 \<and> hour t < 24 \<and> minute t < 60 \<and> second t < 60
     \<and> microsecond t < 1000000"

subsection \<open>Example states\<close>

text \<open>A configuration with an empty path, and one whose directory does not exist yet.\<close>

definition state_empty_path :: state where
  "state_empty_path =
     \<lparr>snapshot_keep = 2, snapshot_path = Some [], last_snapshot = None,
      fs = [([''/'', ''var''], Directory)], unlink_denied = {}, log = []\<rparr>"

definition state_new_dir :: state where
  "state_new_dir =
     \<lparr>snapshot_keep = 2, snapshot_path = Some ''/var/snap/door'', last_snapshot = None,
      fs = [([''/'', ''var''], Directory)], unlink_denied = {}, log = []\<rparr>"

text \<open>
  A snapshot directory with the four files \<open>t1\<close> to \<open>t4\<close> and a subdirectory, listed by
  the system in some other order; two snapshots are to be kept.
\<close>

definition snap_dir :: path where
  "snap_dir = [''/'', ''snap'']"

definition state_four :: state where
  "state_four =
     \<lparr>snapshot_keep = 2, snapshot_path = Some ''/snap'', last_snapshot = None,
      fs = [([''/'', ''snap''], Directory),
            ([''/'', ''snap'', ''t3''], RegularFile ''c''),
            ([''/'', ''snap'', ''t1''], RegularFile ''a''),
            ([''/'', ''snap'', ''sub''], Directory),
            ([''/'', ''snap'', ''t4''], RegularFile ''d''),
            ([''/'', ''snap'', ''t2''], RegularFile ''b'')],
      unlink_denied = {}, log = []\<rparr>"

definition four_files :: "path list" where
  "four_files =
     [[''/'', ''snap'', ''t1''], [''/'', ''snap'', ''t2''],
      [''/'', ''snap'', ''t3''], [''/'', ''snap'', ''t4'']]"

text \<open>
  The same directory with retention switched off, with room for five snapshots, and with
  a file \<open>t1\<close> that cannot be removed.
\<close>

definition state_unlimited :: state where
  "state_unlimited = state_four\<lparr>snapshot_keep := 0\<rparr>"

definition state_roomy :: state where
  "state_roomy = state_four\<lparr>snapshot_keep := 5\<rparr>"

definition state_denied :: state where
  "state_denied = state_four\<lparr>unlink_denied := {[''/'', ''snap'', ''t1'']}\<rparr>"

text \<open>The directory after \<open>t1\<close> has been removed by someone else.\<close>

definition state_vanished :: state where
  "state_vanished =
     \<lparr>snapshot_keep = 2, snapshot_path = Some ''/snap'', last_snapshot = None,
      fs = [([''/'', ''snap''], Directory),
            ([''/'', ''snap'', ''t3''], RegularFile ''c''),
            ([''/'', ''snap'', ''sub''], Directory),
            ([''/'', ''snap'', ''t4''], RegularFile ''d''),
            ([''/'', ''snap'', ''t2''], RegularFile ''b'')],
      unlink_denied = {}, log = []\<rparr>"

text \<open>Two clock readings in one second, the path they give, and a download that breaks.\<close>

definition morning :: datetime where
  "morning = \<lparr>year = 2024, month = 3, day = 9, hour = 7, minute = 5, second = 59, microsecond = 120000\<rparr>"

definition morning_later :: datetime where
  "morning_later = \<lparr>year = 2024, month = 3, day = 9, hour = 7, minute = 5, second = 59, microsecond = 980000\<rparr>"

definition morning_path :: path where
  "morning_path = [''/'', ''snap'', ''2024-03-09 07:05:59.jpg'']"

definition broken_response :: response where
  "broken_response = \<lparr>chunks = [''ab'', ''cd''], broken = True\<rparr>"

section \<open>Properties\<close>

subsection \<open>The event helper\<close>

text \<open>
  C2: \<^verbatim>\<open>fire_event(x, async_only=False)\<close> fires exactly two events, the asynchronous
  event \<open>x\<close> and then the synchronous event whose name is \<open>x\<close> followed by \<open>_S\<close>; with
  \<^verbatim>\<open>async_only=True\<close> it fires the asynchronous event \<open>x\<close> and nothing else.
\<close>

theorem fire_event_names:
  "map (\<lambda>e. (event_delivery e, event_name e)) (fire_event x False uri fired)
     = map (\<lambda>e. (event_delivery e, event_name e)) fired @ [(Asynchronous, x), (Synchronous, x @ ''_S'')]
   \<and> map (\<lambda>e. (event_delivery e, event_name e)) (fire_event x True uri fired)
     = map (\<lambda>e. (event_delivery e, event_name e)) fired @ [(Asynchronous, x)]"
  by (simp add: fire_event_def eh_fire_event_def eh_fire_event_sync_def Let_def)

text \<open>
  C9: the payload handed to the event handler is always a dictionary from strings to
  strings and never \<^verbatim>\<open>None\<close>: the empty dictionary when no remote URI is given, and
  the dictionary with the one key \<open>remote_uri\<close> holding the URI when one is given. The
  asynchronous and the synchronous event carry the same payload.
\<close>

theorem fire_event_extra:
  "map event_extra (fire_event x False None fired)
     = map event_extra fired @ [Some Map.empty, Some Map.empty]
   \<and> map event_extra (fire_event x True None fired) = map event_extra fired @ [Some Map.empty]
   \<and> map event_extra (fire_event x False (Some uri) fired)
     = map event_extra fired @ [Some [''remote_uri'' \<mapsto> uri], Some [''remote_uri'' \<mapsto> uri]]
   \<and> map event_extra (fire_event x True (Some uri) fired)
     = map event_extra fired @ [Some [''remote_uri'' \<mapsto> uri]]"
  by (simp add: fire_event_def eh_fire_event_def eh_fire_event_sync_def Let_def)

subsection \<open>Creating the directories\<close>

lemma map_of_snoc_other: "p \<noteq> q \<Longrightarrow> map_of (f @ [(q, n)]) p = map_of f p"
  by (simp add: map_add_def split: option.splits)

lemma map_of_snoc_new: "map_of f q = None \<Longrightarrow> map_of (f @ [(q, n)]) q = Some n"
  by (simp add: map_add_def split: option.splits)

lemma map_of_snoc_keep: "map_of f p = Some m \<Longrightarrow> map_of (f @ [(q, n)]) p = Some m"
  by (simp add: map_add_def split: option.splits)

lemma not_exists_None: "\<not> exists_path f q \<Longrightarrow> map_of f q = None"
  by (simp add: exists_path_def)

lemma mkdir_parents_keeps:
  "mkdir_parents pre cs f = Inr f' \<Longrightarrow> map_of f p = Some n \<Longrightarrow> map_of f' p = Some n"
proof (induction cs arbitrary: pre f)
  case Nil
  then show ?case by simp
next
  case (Cons c cs)
  then show ?case
    by (auto simp: Let_def map_of_snoc_keep split: if_splits)
qed

lemma is_dir_keeps: "mkdir_parents pre cs f = Inr f' \<Longrightarrow> is_dir f p \<Longrightarrow> is_dir f' p"
  by (auto simp: is_dir_def dest: mkdir_parents_keeps)

lemma mkdir_parents_step:
  assumes "mkdir_parents pre (c # cs) f = Inr f'"
  shows "\<exists>g. mkdir_parents (pre @ [c]) cs g = Inr f' \<and> is_dir g (pre @ [c])"
proof (cases "is_dir f (pre @ [c])")
  case True
  with assms show ?thesis by auto
next
  case False
  with assms have ne: "\<not> exists_path f (pre @ [c])"
    and g: "mkdir_parents (pre @ [c]) cs (f @ [(pre @ [c], Directory)]) = Inr f'"
    by (auto simp: Let_def split: if_splits)
  have "is_dir (f @ [(pre @ [c], Directory)]) (pre @ [c])"
    using map_of_snoc_new [OF not_exists_None [OF ne]] by (simp add: is_dir_def del: map_of_append)
  with g show ?thesis by blast
qed

lemma mkdir_parents_dirs:
  "mkdir_parents pre cs f = Inr f' \<Longrightarrow> 0 < k \<Longrightarrow> k \<le> length cs \<Longrightarrow> is_dir f' (pre @ take k cs)"
proof (induction cs arbitrary: pre f k)
  case Nil
  then show ?case by simp
next
  case (Cons c cs)
  let ?q = "pre @ [c]"
  obtain g where g: "mkdir_parents ?q cs g = Inr f'" and dq: "is_dir g ?q"
    using mkdir_parents_step [OF Cons.prems(1)] by blast
  show ?case
  proof (cases k)
    case 0
    with Cons.prems show ?thesis by simp
  next
    case (Suc j)
    show ?thesis
    proof (cases "j = 0")
      case True
      with Suc show ?thesis using is_dir_keeps [OF g dq] by simp
    next
      case False
      with Suc Cons.prems have "is_dir f' (?q @ take j cs)"
        using Cons.IH [OF g, of j] by simp
      with Suc show ?thesis by simp
    qed
  qed
qed

lemma mkdir_parents_new:
  "mkdir_parents pre cs f = Inr f' \<Longrightarrow>
     \<exists>qs. f' = f @ map (\<lambda>q. (q, Directory)) qs \<and> (\<forall>q \<in> set qs. map_of f q = None) \<and> distinct qs
       \<and> (\<forall>q \<in> set qs. length pre < length q)"
proof (induction cs arbitrary: pre f)
  case Nil
  then show ?case by simp
next
  case (Cons c cs)
  let ?q = "pre @ [c]"
  show ?case
  proof (cases "is_dir f ?q")
    case True
    with Cons.prems have "mkdir_parents ?q cs f = Inr f'" by simp
    from Cons.IH [OF this] show ?thesis by fastforce
  next
    case False
    with Cons.prems have ne: "\<not> exists_path f ?q"
      and g: "mkdir_parents ?q cs (f @ [(?q, Directory)]) = Inr f'"
      by (auto simp: Let_def split: if_splits)
    from Cons.IH [OF g] obtain qs where
      qs: "f' = (f @ [(?q, Directory)]) @ map (\<lambda>q. (q, Directory)) qs"
        "\<forall>q \<in> set qs. map_of (f @ [(?q, Directory)]) q = None" "distinct qs"
        "\<forall>q \<in> set qs. length ?q < length q"
      by blast
    have "?q \<notin> set qs" using qs(4) by auto
    moreover have "\<forall>q \<in> set qs. map_of f q = None"
      using qs(2) by (auto simp: map_add_def split: option.splits)
    ultimately show ?thesis
      using qs ne
      by (intro exI [of _ "?q # qs"]) (auto simp: not_exists_None)
  qed
qed

lemma mkdir_parents_idem:
  "mkdir_parents pre cs f = Inr f' \<Longrightarrow> mkdir_parents pre cs f' = Inr f'"
proof (induction cs arbitrary: pre f)
  case Nil
  then show ?case by simp
next
  case (Cons c cs)
  let ?q = "pre @ [c]"
  obtain g where g: "mkdir_parents ?q cs g = Inr f'" and dq: "is_dir g ?q"
    using mkdir_parents_step [OF Cons.prems(1)] by blast
  have "is_dir f' ?q" using is_dir_keeps [OF g dq] .
  then show ?case using Cons.IH [OF g] by simp
qed

lemma mkdir_parents_present:
  "(\<And>k. 0 < k \<Longrightarrow> k \<le> length cs \<Longrightarrow> is_dir f (pre @ take k cs)) \<Longrightarrow> mkdir_parents pre cs f = Inr f"
proof (induction cs arbitrary: pre)
  case Nil
  then show ?case by simp
next
  case (Cons c cs)
  have "is_dir f (pre @ [c])" using Cons.prems [of 1] by simp
  moreover have "mkdir_parents (pre @ [c]) cs f = Inr f"
  proof (rule Cons.IH)
    fix k assume "0 < k" "k \<le> length cs"
    then show "is_dir f ((pre @ [c]) @ take k cs)" using Cons.prems [of "Suc k"] by simp
  qed
  ultimately show ?case by simp
qed

lemma blocked_snoc:
  "length q' \<le> length pre \<Longrightarrow> blocked pre cs (f @ [(q', Directory)]) = blocked pre cs f"
proof (induction cs arbitrary: pre)
  case Nil
  then show ?case by simp
next
  case (Cons c cs)
  have ne: "pre @ [c] \<noteq> q'" using Cons.prems by auto
  have "blocked (pre @ [c]) cs (f @ [(q', Directory)]) = blocked (pre @ [c]) cs f"
    using Cons.prems by (intro Cons.IH) simp
  then show ?case using ne
    by (simp add: Let_def exists_path_def is_dir_def map_of_snoc_other del: map_of_append)
qed

lemma mkdir_parents_succeeds:
  "\<not> blocked pre cs f \<Longrightarrow> \<exists>f'. mkdir_parents pre cs f = Inr f'"
proof (induction cs arbitrary: pre f)
  case Nil
  then show ?case by simp
next
  case (Cons c cs)
  then show ?case
    by (auto simp: Let_def blocked_snoc)
qed

lemma mkdir_parents_blocked:
  "blocked pre cs f \<Longrightarrow> mkdir_parents pre cs f = Inl (OSError ''File exists'')"
proof (induction cs arbitrary: pre f)
  case Nil
  then show ?case by simp
next
  case (Cons c cs)
  then show ?case
    by (auto simp: Let_def blocked_snoc)
qed

subsection \<open>The base path\<close>

lemma get_base_path_unset:
  "snapshot_path s = None \<or> snapshot_path s = Some [] \<Longrightarrow>
     get_base_path s = (Inl (ValueError ''snapshot_path must not be empty''), s)"
  by (auto simp: get_base_path_def)

lemma get_base_path_Inr:
  "get_base_path s = (Inr p, s') \<Longrightarrow>
     \<exists>str. snapshot_path s = Some str \<and> str \<noteq> [] \<and> p = Path str
        \<and> mkdir_parents [] p (fs s) = Inr (fs s') \<and> s' = s\<lparr>fs := fs s'\<rparr>"
  by (auto simp: get_base_path_def Let_def split: option.splits if_splits sum.splits)

lemma get_base_path_idem:
  "get_base_path s = (Inr p, s') \<Longrightarrow> get_base_path s' = (Inr p, s')"
proof -
  assume a: "get_base_path s = (Inr p, s')"
  from get_base_path_Inr [OF a] obtain str where
    h: "snapshot_path s = Some str" "str \<noteq> []" "p = Path str"
       "mkdir_parents [] p (fs s) = Inr (fs s')" "s' = s\<lparr>fs := fs s'\<rparr>"
    by blast
  have "snapshot_path s' = Some str" using h(1,5) by (metis state.select_convs(2) state.surjective state.update_convs(4))
  moreover have "mkdir_parents [] p (fs s') = Inr (fs s')" using mkdir_parents_idem [OF h(4)] .
  ultimately show ?thesis using h(2,3) by (simp add: get_base_path_def)
qed

lemma get_base_path_creates:
  assumes "snapshot_path s = Some str" "str \<noteq> []" "\<not> blocked [] (Path str) (fs s)"
  shows "\<exists>s'. get_base_path s = (Inr (Path str), s') \<and> s' = s\<lparr>fs := fs s'\<rparr>
           \<and> (\<forall>k. is_dir (fs s') (take k (Path str)))
           \<and> (\<forall>p n. map_of (fs s) p = Some n \<longrightarrow> map_of (fs s') p = Some n)"
proof -
  from mkdir_parents_succeeds [OF assms(3)] obtain f' where
    f': "mkdir_parents [] (Path str) (fs s) = Inr f'" by blast
  have g: "get_base_path s = (Inr (Path str), s\<lparr>fs := f'\<rparr>)"
    using assms(1,2) f' by (simp add: get_base_path_def)
  have d: "is_dir f' (take k (Path str))" for k
  proof (cases "k = 0")
    case True
    then show ?thesis by (simp add: is_dir_def is_root_def)
  next
    case False
    show ?thesis
    proof (cases "k \<le> length (Path str)")
      case True
      with False show ?thesis using mkdir_parents_dirs [OF f', of k] by simp
    next
      case False
      then have "take k (Path str) = take (length (Path str)) (Path str)" by simp
      moreover have "is_dir f' (take (length (Path str)) (Path str))"
      proof (cases "Path str = []")
        case True
        then show ?thesis by (simp add: is_dir_def is_root_def)
      next
        case False
        then show ?thesis using mkdir_parents_dirs [OF f', of "length (Path str)"] by simp
      qed
      ultimately show ?thesis by simp
    qed
  qed
  show ?thesis using g d mkdir_parents_keeps [OF f'] by auto
qed

lemma get_base_path_present:
  assumes "snapshot_path s = Some str" "str \<noteq> []" "\<forall>k. is_dir (fs s) (take k (Path str))"
  shows "get_base_path s = (Inr (Path str), s)"
proof -
  have "mkdir_parents [] (Path str) (fs s) = Inr (fs s)"
    using assms(3) by (intro mkdir_parents_present) simp
  then show ?thesis using assms(1,2) by (simp add: get_base_path_def)
qed

text \<open>
  C3: \<^verbatim>\<open>get_base_path\<close> raises \<^verbatim>\<open>ValueError\<close> on an unset or empty path and leaves
  the state as it was, so no directory is created. On a path that is not empty and that
  no existing non-directory stands in the way of, it returns the path; afterwards the
  path and each of its parents is a directory, every node that existed still exists, and
  a second call returns the same path and changes nothing. When the path and its parents
  are directories already, the call changes nothing.
\<close>

theorem get_base_path_creates_idempotently:
  "(snapshot_path s = None \<or> snapshot_path s = Some [] \<longrightarrow>
      get_base_path s = (Inl (ValueError ''snapshot_path must not be empty''), s))
   \<and> (snapshot_path s = Some str \<and> str \<noteq> [] \<and> \<not> blocked [] (Path str) (fs s) \<longrightarrow>
        (\<exists>s'. get_base_path s = (Inr (Path str), s')
           \<and> s' = s\<lparr>fs := fs s'\<rparr>
           \<and> (\<forall>k. is_dir (fs s') (take k (Path str)))
           \<and> (\<forall>p n. map_of (fs s) p = Some n \<longrightarrow> map_of (fs s') p = Some n)
           \<and> get_base_path s' = (Inr (Path str), s')))
   \<and> (snapshot_path s = Some str \<and> str \<noteq> [] \<and> (\<forall>k. is_dir (fs s) (take k (Path str))) \<longrightarrow>
        get_base_path s = (Inr (Path str), s))"
  using get_base_path_unset [of s] get_base_path_creates [of s str] get_base_path_present [of s str]
    get_base_path_idem
  by (intro conjI impI) blast+

theorem get_base_path_creates_idempotently_witness:
  "get_base_path state_empty_path
     = (Inl (ValueError ''snapshot_path must not be empty''), state_empty_path)
   \<and> \<not> is_dir (fs state_new_dir) [''/'', ''var'', ''snap'', ''door'']
   \<and> (\<exists>s'. get_base_path state_new_dir = (Inr [''/'', ''var'', ''snap'', ''door''], s')
         \<and> is_dir (fs s') [''/'', ''var'', ''snap'']
         \<and> is_dir (fs s') [''/'', ''var'', ''snap'', ''door'']
         \<and> get_base_path s' = (Inr [''/'', ''var'', ''snap'', ''door''], s'))"
proof -
  have e: "snapshot_path state_empty_path = None \<or> snapshot_path state_empty_path = Some []"
    by (simp add: state_empty_path_def)
  have p: "Path ''/var/snap/door'' = [''/'', ''var'', ''snap'', ''door'']"
    by code_simp
  have n: "snapshot_path state_new_dir = Some ''/var/snap/door'' \<and> ''/var/snap/door'' \<noteq> []
             \<and> \<not> blocked [] (Path ''/var/snap/door'') (fs state_new_dir)"
    by code_simp
  have a: "\<not> is_dir (fs state_new_dir) [''/'', ''var'', ''snap'', ''door'']"
    by code_simp
  note t1 = get_base_path_creates_idempotently [of state_empty_path "[]"]
  note t2 = get_base_path_creates_idempotently [of state_new_dir "''/var/snap/door''"]
  from t2 n obtain s' where
    s': "get_base_path state_new_dir = (Inr (Path ''/var/snap/door''), s')"
        "\<forall>k. is_dir (fs s') (take k (Path ''/var/snap/door''))"
        "get_base_path s' = (Inr (Path ''/var/snap/door''), s')"
    by blast
  have "is_dir (fs s') [''/'', ''var'', ''snap'']" using s'(2) [rule_format, of 3] by (simp add: p)
  moreover have "is_dir (fs s') [''/'', ''var'', ''snap'', ''door'']"
    using s'(2) [rule_format, of 4] by (simp add: p)
  ultimately show ?thesis using t1 e a s'(1,3) by (auto simp: p)
qed

subsection \<open>Listing the snapshots\<close>

lemma snoc_le_snoc: "(b :: 'a :: linorder list) @ [x] \<le> b @ [y] \<longleftrightarrow> x \<le> y"
  by (induction b) auto

lemma snoc_less_snoc: "(b :: 'a :: linorder list) @ [x] < b @ [y] \<longleftrightarrow> x < y"
  by (induction b) auto

lemma child_le_iff:
  assumes "p \<noteq> []" "q \<noteq> []" "butlast p = butlast q"
  shows "p \<le> q \<longleftrightarrow> last p \<le> last (q :: 'a :: linorder list)"
proof -
  have "p = butlast q @ [last p]" "q = butlast q @ [last q]"
    using assms by (metis append_butlast_last_id)+
  then show ?thesis using snoc_le_snoc [of "butlast q" "last p" "last q"] by simp
qed

lemma child_less_iff:
  assumes "p \<noteq> []" "q \<noteq> []" "butlast p = butlast q"
  shows "p < q \<longleftrightarrow> last p < last (q :: 'a :: linorder list)"
proof -
  have "p = butlast q @ [last p]" "q = butlast q @ [last q]"
    using assms by (metis append_butlast_last_id)+
  then show ?thesis using snoc_less_snoc [of "butlast q" "last p" "last q"] by simp
qed

lemma map_of_filter_key:
  "map_of (filter (\<lambda>(k, v). P k) f) q = (if P q then map_of f q else None)"
  by (induction f) auto

lemma is_file_snoc_dir:
  "map_of f q = None \<Longrightarrow> is_file (f @ [(q, Directory)]) p = is_file f p"
  by (cases "p = q") (simp_all add: is_file_def map_add_def split: option.splits)

lemma mkdir_parents_is_file:
  "mkdir_parents pre cs f = Inr f' \<Longrightarrow> is_file f' p = is_file f p"
proof (induction cs arbitrary: pre f)
  case Nil
  then show ?case by simp
next
  case (Cons c cs)
  show ?case
  proof (cases "is_dir f (pre @ [c])")
    case True
    with Cons show ?thesis by simp
  next
    case False
    with Cons.prems have ne: "\<not> exists_path f (pre @ [c])"
      and g: "mkdir_parents (pre @ [c]) cs (f @ [(pre @ [c], Directory)]) = Inr f'"
      by (auto simp: Let_def split: if_splits)
    show ?thesis
      using Cons.IH [OF g] is_file_snoc_dir [OF not_exists_None [OF ne]] by simp
  qed
qed

lemma mkdir_parents_distinct:
  "mkdir_parents pre cs f = Inr f' \<Longrightarrow> distinct (map fst f) \<Longrightarrow> distinct (map fst f')"
proof (induction cs arbitrary: pre f)
  case Nil
  then show ?case by simp
next
  case (Cons c cs)
  show ?case
  proof (cases "is_dir f (pre @ [c])")
    case True
    with Cons show ?thesis by simp
  next
    case False
    with Cons.prems have ne: "\<not> exists_path f (pre @ [c])"
      and g: "mkdir_parents (pre @ [c]) cs (f @ [(pre @ [c], Directory)]) = Inr f'"
      by (auto simp: Let_def split: if_splits)
    have "pre @ [c] \<notin> fst ` set f"
      using not_exists_None [OF ne] by (simp add: map_of_eq_None_iff)
    then have "distinct (map fst (f @ [(pre @ [c], Directory)]))"
      using Cons.prems(2) by simp
    from Cons.IH [OF g this] show ?thesis .
  qed
qed

lemma is_file_not_dir: "is_file f p \<Longrightarrow> \<not> is_dir f p"
  by (auto simp: is_file_def is_dir_def)

lemma get_base_path_is_dir:
  assumes "get_base_path s = (Inr b, s1)"
  shows "is_dir (fs s1) (take k b)"
proof -
  from get_base_path_Inr [OF assms] obtain str where
    h: "snapshot_path s = Some str" "str \<noteq> []" "b = Path str"
    by blast
  from get_base_path_idem [OF assms] have i: "get_base_path s1 = (Inr b, s1)" .
  from get_base_path_Inr [OF i] have m: "mkdir_parents [] b (fs s1) = Inr (fs s1)" by auto
  show ?thesis
  proof (cases "k = 0 \<or> b = []")
    case True
    then show ?thesis by (auto simp: is_dir_def is_root_def)
  next
    case False
    then have "0 < min k (length b)" "min k (length b) \<le> length b" by auto
    from mkdir_parents_dirs [OF m this] show ?thesis by (simp add: min_def split: if_splits)
  qed
qed

lemma list_all_eq:
  assumes "get_base_path s = (Inr b, s1)"
  shows "list_all s = (Inr (snapshots b (fs s1)), s1)"
proof -
  have "is_dir (fs s1) b" using get_base_path_is_dir [OF assms, of "length b"] by simp
  then show ?thesis using assms by (simp add: list_all_def iterdir_def snapshots_def)
qed

lemma list_all_Inr:
  assumes "list_all s = (Inr files, s1)"
  shows "\<exists>b. get_base_path s = (Inr b, s1) \<and> files = snapshots b (fs s1)"
proof -
  from assms obtain b where b: "get_base_path s = (Inr b, s1)"
    by (auto simp: list_all_def split: prod.splits sum.splits)
  with list_all_eq [OF b] assms show ?thesis by auto
qed

lemma set_snapshots:
  "set (snapshots b f) = {p. p \<noteq> [] \<and> butlast p = b \<and> is_file f p}"
proof -
  have "is_file f p \<Longrightarrow> p \<in> fst ` set f" for p
    by (auto simp: is_file_def split: option.splits dest: map_of_SomeD intro: rev_image_eqI)
  moreover have "is_file f p \<Longrightarrow> \<not> is_root p" for p by (simp add: is_file_def)
  ultimately show ?thesis
    by (auto simp: snapshots_def image_iff) force
qed

lemma sorted_snapshots: "sorted (snapshots b f)"
  by (simp add: snapshots_def)

lemma distinct_snapshots: "distinct (map fst f) \<Longrightarrow> distinct (snapshots b f)"
  by (simp add: snapshots_def distinct_map_filter)

lemma name_child: "is_file f p \<Longrightarrow> name p = last p"
  by (simp add: is_file_def name_def)

lemma sorted_names_snapshots: "sorted (map name (snapshots b f))"
proof -
  have "sorted_wrt (\<lambda>p q. name p \<le> name q) (snapshots b f)"
  proof (rule sorted_wrt_mono_rel [OF _ sorted_snapshots [of b f, unfolded sorted_wrt_iff_nth_less [symmetric]]])
    fix p q
    assume "p \<in> set (snapshots b f)" "q \<in> set (snapshots b f)" "p \<le> q"
    then show "name p \<le> name q"
      using child_le_iff [of p q] by (auto simp: set_snapshots name_child)
  qed
  then show ?thesis by (simp add: sorted_map)
qed

subsection \<open>The cleanup loop\<close>

lemma attempt_log_denied:
  "p \<in> D \<Longrightarrow> attempt_log D p = [Deleting_old_snapshot p, Could_not_clean_up_snapshot (name p)]"
  by (simp add: attempt_log_def)

lemma attempt_log_allowed: "p \<notin> D \<Longrightarrow> attempt_log D p = [Deleting_old_snapshot p]"
  by (simp add: attempt_log_def)

lemma py_slice_keep:
  "0 < k \<Longrightarrow> py_slice xs 0 (- k) = take (length xs - nat k) xs"
  by (auto simp: py_slice_def slice_bound_def Let_def max_def nat_diff_distrib')

lemma is_file_delete: "p \<noteq> q \<Longrightarrow> is_file (AList.delete q f) p = is_file f p"
  by (simp add: is_file_def delete_conv)

lemma unlink_file:
  "is_file (fs s) p \<Longrightarrow>
     unlink p s = (if p \<in> unlink_denied s then (Inl (OSError ''Permission denied''), s)
                   else (Inr (), s\<lparr>fs := AList.delete p (fs s)\<rparr>))"
  by (auto simp: unlink_def is_file_def split: option.splits node.splits)

lemma filter_delete:
  "p \<notin> D \<Longrightarrow>
     filter (\<lambda>(q, n). q \<notin> set ps \<or> q \<in> D) (AList.delete p f)
       = filter (\<lambda>(q, n). q \<notin> set (p # ps) \<or> q \<in> D) f"
  by (induction f) (auto simp: AList.delete_eq)

lemma filter_denied:
  "p \<in> D \<Longrightarrow>
     filter (\<lambda>(q, n). q \<notin> set ps \<or> q \<in> D) f
       = filter (\<lambda>(q, n). q \<notin> set (p # ps) \<or> q \<in> D) f"
  by (induction f) auto

lemma cleanup_loop_result:
  "distinct ps \<Longrightarrow> \<forall>p \<in> set ps. is_file (fs s) p \<Longrightarrow>
     cleanup_loop ps s =
       (Inr (), s\<lparr>fs := filter (\<lambda>(q, n). q \<notin> set ps \<or> q \<in> unlink_denied s) (fs s),
                  log := log s @ concat (map (attempt_log (unlink_denied s)) ps)\<rparr>)"
proof (induction ps arbitrary: s)
  case Nil
  then show ?case by simp
next
  case (Cons p ps)
  let ?s1 = "s\<lparr>log := log s @ [Deleting_old_snapshot p]\<rparr>"
  have fp: "is_file (fs ?s1) p" using Cons.prems by simp
  show ?case
  proof (cases "p \<in> unlink_denied s")
    case True
    let ?s2 = "?s1\<lparr>log := log ?s1 @ [Could_not_clean_up_snapshot (name p)]\<rparr>"
    have step: "cleanup_loop (p # ps) s = cleanup_loop ps ?s2"
      using unlink_file [OF fp] True by (simp add: Let_def)
    have ih: "cleanup_loop ps ?s2 = (Inr (), ?s2\<lparr>fs := filter (\<lambda>(q, n). q \<notin> set ps \<or> q \<in> unlink_denied ?s2) (fs ?s2),
                  log := log ?s2 @ concat (map (attempt_log (unlink_denied ?s2)) ps)\<rparr>)"
      using Cons.prems by (intro Cons.IH) auto
    show ?thesis
      unfolding step ih
      using True filter_denied [of p "unlink_denied s" ps "fs s"]
      by (simp add: attempt_log_denied)
  next
    case False
    let ?s2 = "?s1\<lparr>fs := AList.delete p (fs ?s1)\<rparr>"
    have step: "cleanup_loop (p # ps) s = cleanup_loop ps ?s2"
      using unlink_file [OF fp] False by (simp add: Let_def)
    have ih: "cleanup_loop ps ?s2 = (Inr (), ?s2\<lparr>fs := filter (\<lambda>(q, n). q \<notin> set ps \<or> q \<in> unlink_denied ?s2) (fs ?s2),
                  log := log ?s2 @ concat (map (attempt_log (unlink_denied ?s2)) ps)\<rparr>)"
    proof (rule Cons.IH)
      show "distinct ps" using Cons.prems by simp
      show "\<forall>q \<in> set ps. is_file (fs ?s2) q"
      proof
        fix q assume q: "q \<in> set ps"
        then have "q \<noteq> p" using Cons.prems by auto
        then show "is_file (fs ?s2) q" using q Cons.prems is_file_delete [of q p "fs s"] by simp
      qed
    qed
    show ?thesis
      unfolding step ih
      using False filter_delete [of p "unlink_denied s" ps "fs s"]
      by (simp add: attempt_log_allowed)
  qed
qed

lemma get_base_path_state:
  assumes "get_base_path s = (r, s1)"
  shows "s1 = s \<or> (\<exists>b f. r = Inr b \<and> mkdir_parents [] b (fs s) = Inr f \<and> s1 = s\<lparr>fs := f\<rparr>)"
proof (cases "snapshot_path s")
  case None
  with assms show ?thesis by (simp add: get_base_path_def)
next
  case (Some str)
  show ?thesis
  proof (cases "str = []")
    case True
    with Some assms show ?thesis by (simp add: get_base_path_def)
  next
    case False
    show ?thesis
    proof (cases "mkdir_parents [] (Path str) (fs s)")
      case (Inl e)
      with Some False assms show ?thesis by (simp add: get_base_path_def)
    next
      case (Inr f)
      with Some False assms have "r = Inr (Path str)" "s1 = s\<lparr>fs := f\<rparr>"
        by (simp_all add: get_base_path_def)
      with Inr show ?thesis by blast
    qed
  qed
qed

lemma list_all_state:
  assumes "list_all s = (r, s1)"
  shows "\<exists>r'. get_base_path s = (r', s1)"
proof (cases "get_base_path s")
  case (Pair r' s')
  show ?thesis
  proof (cases r')
    case (Inl e)
    with Pair assms show ?thesis by (simp add: list_all_def)
  next
    case (Inr b)
    with Pair assms show ?thesis by (cases "iterdir b (fs s')") (simp_all add: list_all_def)
  qed
qed

lemma get_base_path_fields:
  assumes "get_base_path s = (r, s1)"
  shows "snapshot_keep s1 = snapshot_keep s \<and> snapshot_path s1 = snapshot_path s
           \<and> last_snapshot s1 = last_snapshot s \<and> unlink_denied s1 = unlink_denied s
           \<and> log s1 = log s"
  using get_base_path_state [OF assms] by auto

lemma list_all_fields:
  assumes "list_all s = (r, s1)"
  shows "snapshot_keep s1 = snapshot_keep s \<and> snapshot_path s1 = snapshot_path s
           \<and> last_snapshot s1 = last_snapshot s \<and> unlink_denied s1 = unlink_denied s
           \<and> log s1 = log s"
  using list_all_state [OF assms] get_base_path_fields by blast

lemma get_base_path_keeps:
  assumes "get_base_path s = (r, s1)" "map_of (fs s) p = Some n"
  shows "map_of (fs s1) p = Some n"
  using get_base_path_state [OF assms(1)] assms(2) by (auto dest: mkdir_parents_keeps)

lemma list_all_keeps:
  assumes "list_all s = (r, s1)" "map_of (fs s) p = Some n"
  shows "map_of (fs s1) p = Some n"
  using list_all_state [OF assms(1)] assms(2) get_base_path_keeps by blast

lemma get_base_path_distinct:
  assumes "get_base_path s = (r, s1)" "distinct (map fst (fs s))"
  shows "distinct (map fst (fs s1))"
  using get_base_path_state [OF assms(1)] assms(2) by (auto dest: mkdir_parents_distinct)

lemma get_base_path_is_file:
  assumes "get_base_path s = (r, s1)"
  shows "is_file (fs s1) p = is_file (fs s) p"
proof -
  from get_base_path_state [OF assms] show ?thesis
  proof
    assume "s1 = s"
    then show ?thesis by simp
  next
    assume "\<exists>b f. r = Inr b \<and> mkdir_parents [] b (fs s) = Inr f \<and> s1 = s\<lparr>fs := f\<rparr>"
    then obtain b f where m: "mkdir_parents [] b (fs s) = Inr f" and s1: "s1 = s\<lparr>fs := f\<rparr>"
      by blast
    show ?thesis using mkdir_parents_is_file [OF m, of p] s1 by simp
  qed
qed

lemma cleanup_result:
  assumes wf: "distinct (map fst (fs s))" and keep: "0 < snapshot_keep s"
    and la: "list_all s = (Inr files, s1)"
  shows "cleanup s =
           (Inr (), s1\<lparr>fs := filter (\<lambda>(q, n). q \<notin> set (take (length files - nat (snapshot_keep s)) files)
                                        \<or> q \<in> unlink_denied s) (fs s1),
                      log := log s @ concat (map (attempt_log (unlink_denied s))
                                (take (length files - nat (snapshot_keep s)) files))\<rparr>)"
proof -
  let ?cands = "take (length files - nat (snapshot_keep s)) files"
  from list_all_Inr [OF la] obtain b where
    b: "get_base_path s = (Inr b, s1)" and files: "files = snapshots b (fs s1)" by blast
  have d: "distinct files"
    using get_base_path_distinct [OF b wf] files by (simp add: distinct_snapshots)
  have f: "\<forall>p \<in> set ?cands. is_file (fs s1) p"
    using files set_snapshots [of b "fs s1"] by (auto dest: in_set_takeD)
  have c: "cleanup s = cleanup_loop ?cands s1"
    using keep la by (simp add: cleanup_def Let_def py_slice_keep)
  have "distinct ?cands" using d by simp
  from cleanup_loop_result [OF this f] show ?thesis
    using c list_all_fields [OF la] by simp
qed

subsection \<open>Listing after a cleanup\<close>

lemma is_file_filter:
  "p \<notin> C \<Longrightarrow> is_file (filter (\<lambda>(q, n). q \<notin> C) f) p = is_file f p"
  by (simp add: is_file_def map_of_filter_key)

lemma is_dir_filter:
  "p \<notin> C \<Longrightarrow> is_dir (filter (\<lambda>(q, n). q \<notin> C) f) p = is_dir f p"
  by (simp add: is_dir_def map_of_filter_key)

lemma not_exists_filter:
  "p \<in> C \<Longrightarrow> \<not> is_root p \<Longrightarrow> \<not> exists_path (filter (\<lambda>(q, n). q \<notin> C) f) p"
  by (simp add: exists_path_def map_of_filter_key)

lemma iterdir_filter:
  "filter P (map fst (filter Q (filter (\<lambda>(q, n). q \<notin> C) f)))
     = filter (\<lambda>p. p \<notin> C) (filter P (map fst (filter Q f)))"
  by (induction f) auto

lemma snapshots_filter:
  "snapshots b (filter (\<lambda>(q, n). q \<notin> C) f) = filter (\<lambda>p. p \<notin> C) (snapshots b f)"
proof -
  let ?F = "filter (\<lambda>(q, n). q \<notin> C) f"
  let ?Q = "\<lambda>(p, n). p \<noteq> [] \<and> \<not> is_root p \<and> butlast p = b"
  have "filter (is_file ?F) (map fst (filter ?Q ?F)) = filter (is_file f) (map fst (filter ?Q ?F))"
    by (rule filter_cong) (auto simp: is_file_filter)
  also have "\<dots> = filter (\<lambda>p. p \<notin> C) (filter (is_file f) (map fst (filter ?Q f)))"
    by (rule iterdir_filter)
  finally show ?thesis by (simp add: snapshots_def filter_sort)
qed

lemma filter_drop_prefix:
  "set as \<inter> set bs = {} \<Longrightarrow> filter (\<lambda>p. p \<notin> set as) (as @ bs) = bs"
  by (auto simp: filter_empty_conv filter_id_conv)

lemma filter_not_in_take:
  assumes "distinct xs"
  shows "filter (\<lambda>p. p \<notin> set (take k xs)) xs = drop k xs"
proof -
  have "distinct (take k xs @ drop k xs)" using assms by simp
  then have "set (take k xs) \<inter> set (drop k xs) = {}" by (simp only: distinct_append)
  from filter_drop_prefix [OF this] show ?thesis by simp
qed

lemma get_base_path_again:
  assumes b: "get_base_path s = (Inr b, s1)"
    and s2: "snapshot_path s2 = snapshot_path s1"
    and dirs: "\<And>k. is_dir (fs s2) (take k b)"
  shows "get_base_path s2 = (Inr b, s2)"
proof -
  from get_base_path_Inr [OF b] obtain str where
    h: "snapshot_path s = Some str" "str \<noteq> []" "b = Path str" by blast
  have "snapshot_path s2 = Some str" using s2 h(1) get_base_path_fields [OF b] by simp
  then show ?thesis using get_base_path_present [of s2 str] h(2,3) dirs by simp
qed

lemma list_all_after_removal:
  assumes b: "get_base_path s = (Inr b, s1)"
    and C: "\<And>p. p \<in> C \<Longrightarrow> is_file (fs s1) p"
    and s2: "snapshot_path s2 = snapshot_path s1" "fs s2 = filter (\<lambda>(q, n). q \<notin> C) (fs s1)"
  shows "list_all s2 = (Inr (filter (\<lambda>p. p \<notin> C) (snapshots b (fs s1))), s2)"
proof -
  have "is_dir (fs s2) (take k b)" for k
  proof -
    have d: "is_dir (fs s1) (take k b)" using get_base_path_is_dir [OF b] .
    then have "take k b \<notin> C" using C is_file_not_dir by blast
    then show ?thesis using d s2(2) by (simp add: is_dir_filter)
  qed
  from get_base_path_again [OF b s2(1) this] have "get_base_path s2 = (Inr b, s2)" .
  from list_all_eq [OF this] show ?thesis using s2(2) by (simp add: snapshots_filter)
qed

lemma strict_between_take_drop:
  assumes "sorted xs" "distinct xs" "p \<in> set (take k xs)" "q \<in> set (drop k xs)"
  shows "p < (q :: 'a :: linorder)"
proof -
  have "sorted_wrt (<) (take k xs @ drop k xs)"
    using assms(1,2) by (simp add: strict_sorted_iff)
  then have "\<forall>x \<in> set (take k xs). \<forall>y \<in> set (drop k xs). x < y"
    unfolding sorted_wrt_append by blast
  then show ?thesis using assms(3,4) by blast
qed

subsection \<open>Listing and retention\<close>

text \<open>
  C5: whenever the base path resolves, \<^verbatim>\<open>list_all\<close> returns. Its result is sorted
  ascending, as paths and by name; it holds exactly the regular files whose parent is the
  base directory in the filesystem at the time of the call, so no subdirectory is in it
  and nothing is remembered from an earlier call; and no file is listed twice.
\<close>

theorem list_all_sorted_files:
  assumes "get_base_path s = (Inr b, s1)"
  shows "\<exists>files. list_all s = (Inr files, s1)
           \<and> sorted files \<and> sorted (map name files)
           \<and> set files = {p. p \<noteq> [] \<and> butlast p = b \<and> is_file (fs s) p}
           \<and> (\<forall>p \<in> set files. \<not> is_dir (fs s) p)
           \<and> (distinct (map fst (fs s)) \<longrightarrow> distinct files)"
proof -
  let ?files = "snapshots b (fs s1)"
  have f: "is_file (fs s1) p = is_file (fs s) p" for p
    using get_base_path_is_file [OF assms] .
  have "set ?files = {p. p \<noteq> [] \<and> butlast p = b \<and> is_file (fs s) p}"
    by (simp add: set_snapshots f)
  moreover from this have "\<forall>p \<in> set ?files. \<not> is_dir (fs s) p"
    using is_file_not_dir by blast
  moreover have "distinct (map fst (fs s)) \<longrightarrow> distinct ?files"
    using get_base_path_distinct [OF assms] distinct_snapshots by blast
  ultimately show ?thesis
    using list_all_eq [OF assms] sorted_snapshots sorted_names_snapshots by blast
qed

theorem list_all_sorted_files_witness:
  "get_base_path state_four = (Inr snap_dir, state_four)
   \<and> (\<exists>files. list_all state_four = (Inr files, state_four)
         \<and> sorted (map name files)
         \<and> [''/'', ''snap'', ''t1''] \<in> set files
         \<and> [''/'', ''snap'', ''sub''] \<notin> set files)"
proof -
  have g: "get_base_path state_four = (Inr snap_dir, state_four)" by code_simp
  have a: "is_file (fs state_four) [''/'', ''snap'', ''t1''] \<and> butlast [''/'', ''snap'', ''t1''] = snap_dir"
    by code_simp
  have b: "\<not> is_file (fs state_four) [''/'', ''snap'', ''sub'']" by code_simp
  from list_all_sorted_files [OF g] obtain files where
    f: "list_all state_four = (Inr files, state_four)" "sorted (map name files)"
       "set files = {p. p \<noteq> [] \<and> butlast p = snap_dir \<and> is_file (fs state_four) p}"
    by blast
  have "[''/'', ''snap'', ''t1''] \<in> set files" using f(3) a by simp
  moreover have "[''/'', ''snap'', ''sub''] \<notin> set files" using f(3) b by simp
  ultimately show ?thesis using g f(1,2) by blast
qed

text \<open>
  C8: with \<open>snapshot_keep \<le> 0\<close>, \<^verbatim>\<open>cleanup\<close> returns at once and the whole state,
  filesystem and log included, is what it was. With a positive \<open>snapshot_keep\<close> and no
  more files listed than that, \<^verbatim>\<open>cleanup\<close> attempts no deletion: the state is the
  one the listing left, nothing is logged, every node is still there, and the listing is
  the same afterwards.
\<close>

theorem cleanup_noop:
  "(snapshot_keep s \<le> 0 \<longrightarrow> cleanup s = (Inr (), s))
   \<and> (0 < snapshot_keep s \<and> list_all s = (Inr files, s1)
        \<and> int (length files) \<le> snapshot_keep s \<longrightarrow>
          cleanup s = (Inr (), s1) \<and> log s1 = log s
          \<and> (\<forall>p n. map_of (fs s) p = Some n \<longrightarrow> map_of (fs s1) p = Some n)
          \<and> list_all s1 = (Inr files, s1))"
proof (intro conjI impI)
  assume "snapshot_keep s \<le> 0"
  then show "cleanup s = (Inr (), s)" by (simp add: cleanup_def)
next
  assume a: "0 < snapshot_keep s \<and> list_all s = (Inr files, s1)
               \<and> int (length files) \<le> snapshot_keep s"
  then have "length files \<le> nat (snapshot_keep s)" by linarith
  with a have "py_slice files 0 (- snapshot_keep s) = []"
    by (simp add: py_slice_keep)
  with a show "cleanup s = (Inr (), s1)" by (simp add: cleanup_def Let_def)
  from a show "log s1 = log s" using list_all_fields by blast
  from a show "\<forall>p n. map_of (fs s) p = Some n \<longrightarrow> map_of (fs s1) p = Some n"
    using list_all_keeps by blast
  from a list_all_Inr obtain b where
    b: "get_base_path s = (Inr b, s1)" "files = snapshots b (fs s1)" by blast
  from list_all_eq [OF get_base_path_idem [OF b(1)]] b(2)
  show "list_all s1 = (Inr files, s1)" by simp
qed

theorem cleanup_noop_witness:
  "snapshot_keep state_unlimited \<le> 0
   \<and> cleanup state_unlimited = (Inr (), state_unlimited)
   \<and> 0 < snapshot_keep state_roomy
   \<and> list_all state_roomy = (Inr four_files, state_roomy)
   \<and> int (length four_files) \<le> snapshot_keep state_roomy
   \<and> cleanup state_roomy = (Inr (), state_roomy)"
proof -
  have u: "snapshot_keep state_unlimited \<le> 0" by code_simp
  have r: "0 < snapshot_keep state_roomy \<and> list_all state_roomy = (Inr four_files, state_roomy)
             \<and> int (length four_files) \<le> snapshot_keep state_roomy"
    by code_simp
  from cleanup_noop [of state_unlimited] u
  have "cleanup state_unlimited = (Inr (), state_unlimited)" by blast
  moreover from cleanup_noop [of state_roomy four_files state_roomy] r
  have "cleanup state_roomy = (Inr (), state_roomy)" by blast
  ultimately show ?thesis using u r by blast
qed

subsection \<open>Failing deletions\<close>

lemma removable_iff:
  "removable s p \<longleftrightarrow>
     (\<exists>n. map_of (fs s) p = Some n \<and> n \<noteq> Directory) \<and> p \<notin> unlink_denied s"
  by (auto simp: removable_def unlink_def split: option.splits node.splits)

lemma unlink_removable:
  "removable s p \<Longrightarrow> unlink p s = (Inr (), s\<lparr>fs := AList.delete p (fs s)\<rparr>)"
  by (auto simp: removable_def unlink_def split: option.splits node.splits if_splits)

lemma unlink_not_removable:
  "\<not> removable s p \<Longrightarrow> \<exists>m. unlink p s = (Inl (OSError m), s)"
  by (auto simp: removable_def unlink_def split: option.splits node.splits if_splits)

lemma map_of_remaining:
  "map_of (remaining s ps) q = (if q \<in> set ps \<and> removable s q then None else map_of (fs s) q)"
  unfolding remaining_def
  using map_of_filter_key [of "\<lambda>q. \<not> (q \<in> set ps \<and> removable s q)" "fs s" q] by simp

lemma delete_filter_done:
  "R p \<Longrightarrow>
     AList.delete p (filter (\<lambda>(q, n). \<not> (q \<in> set done \<and> R q)) f)
       = filter (\<lambda>(q, n). \<not> (q \<in> set (done @ [p]) \<and> R q)) f"
  by (induction f) (auto simp: AList.delete_eq)

lemma filter_done_same:
  "\<not> (R p \<and> p \<notin> set done) \<Longrightarrow>
     filter (\<lambda>(q, n). \<not> (q \<in> set (done @ [p]) \<and> R q)) f
       = filter (\<lambda>(q, n). \<not> (q \<in> set done \<and> R q)) f"
  by (induction f) auto

lemma remaining_delete:
  "removable s p \<Longrightarrow> AList.delete p (remaining s done) = remaining s (done @ [p])"
  unfolding remaining_def by (rule delete_filter_done)

lemma remaining_same:
  "\<not> (removable s p \<and> p \<notin> set done) \<Longrightarrow> remaining s (done @ [p]) = remaining s done"
  unfolding remaining_def by (rule filter_done_same)

lemma removable_later:
  assumes "fs s = remaining s0 done" "unlink_denied s = unlink_denied s0"
  shows "removable s p \<longleftrightarrow> removable s0 p \<and> p \<notin> set done"
  using assms by (auto simp: removable_iff map_of_remaining)

lemma removable_log: "removable (s\<lparr>log := l\<rparr>) p = removable s p"
  by (simp add: removable_iff)

lemma cleanup_loop_general:
  "fs s = remaining s0 done \<Longrightarrow> unlink_denied s = unlink_denied s0 \<Longrightarrow>
     cleanup_loop ps s
       = (Inr (), s\<lparr>fs := remaining s0 (done @ ps), log := log s @ attempts_log s0 done ps\<rparr>)"
proof (induction ps arbitrary: s "done")
  case Nil
  then show ?case by simp
next
  case (Cons p ps)
  let ?s1 = "s\<lparr>log := log s @ [Deleting_old_snapshot p]\<rparr>"
  have r: "removable ?s1 p \<longleftrightarrow> removable s0 p \<and> p \<notin> set done"
    using removable_later [OF Cons.prems] by (simp add: removable_log)
  show ?case
  proof (cases "removable s0 p \<and> p \<notin> set done")
    case True
    let ?s2 = "?s1\<lparr>fs := AList.delete p (fs ?s1)\<rparr>"
    have step: "cleanup_loop (p # ps) s = cleanup_loop ps ?s2"
      using unlink_removable [of ?s1 p] r True by (simp add: Let_def)
    have f2: "fs ?s2 = remaining s0 (done @ [p])"
      using Cons.prems(1) True remaining_delete [of s0 p "done"] by simp
    have d2: "unlink_denied ?s2 = unlink_denied s0" using Cons.prems(2) by simp
    show ?thesis
      unfolding step Cons.IH [OF f2 d2] using True by simp
  next
    case False
    let ?s2 = "?s1\<lparr>log := log ?s1 @ [Could_not_clean_up_snapshot (name p)]\<rparr>"
    from unlink_not_removable [of ?s1 p] r False
    obtain m where "unlink p ?s1 = (Inl (OSError m), ?s1)" by blast
    then have step: "cleanup_loop (p # ps) s = cleanup_loop ps ?s2"
      by (simp add: Let_def)
    have f2: "fs ?s2 = remaining s0 (done @ [p])"
      using Cons.prems(1) False remaining_same [of s0 p "done"] by simp
    have d2: "unlink_denied ?s2 = unlink_denied s0" using Cons.prems(2) by simp
    show ?thesis
      unfolding step Cons.IH [OF f2 d2] using False by simp
  qed
qed

lemma remaining_Nil: "remaining s [] = fs s"
  by (simp add: remaining_def)

lemma attempted_append: "attempted (xs @ ys) = attempted xs @ attempted ys"
  by (induction xs rule: attempted.induct) simp_all

lemma attempted_attempts_log: "attempted (attempts_log s done ps) = ps"
  by (induction ps arbitrary: "done") (simp_all add: attempted_append)

lemma cleanup_is_loop:
  assumes "0 < snapshot_keep s" "list_all s = (Inr files, s1)"
  shows "cleanup s = cleanup_loop (take (length files - nat (snapshot_keep s)) files) s1"
  using assms by (simp add: cleanup_def Let_def py_slice_keep)

text \<open>
  C4: on every list of candidates and in every state, the loop of \<^verbatim>\<open>cleanup\<close>
  returns normally, whatever makes a removal fail: a file that is missing (removed by
  someone else since the listing, or earlier in the loop), a directory, a refused
  removal. The log shows an attempt for every candidate, in the order of the list, and
  after a failed attempt the error with that file's name; the candidates whose removal
  succeeds are gone and nothing else has changed in the filesystem. With a positive
  \<open>snapshot_keep\<close>, \<^verbatim>\<open>cleanup\<close> is this loop on the files of the listing without the
  last \<open>snapshot_keep\<close> ones.
\<close>

theorem cleanup_isolates_failures:
  "(\<exists>s2. cleanup_loop ps s = (Inr (), s2)
       \<and> log s2 = log s @ attempts_log s [] ps
       \<and> attempted (attempts_log s [] ps) = ps
       \<and> fs s2 = remaining s ps
       \<and> (\<forall>p \<in> set ps. map_of (fs s2) p = (if removable s p then None else map_of (fs s) p)))
   \<and> (0 < snapshot_keep s \<and> list_all s = (Inr files, s1) \<longrightarrow>
        cleanup s = cleanup_loop (take (length files - nat (snapshot_keep s)) files) s1
        \<and> (\<exists>s2. cleanup s = (Inr (), s2)
              \<and> log s2 = log s @ attempts_log s1 []
                                 (take (length files - nat (snapshot_keep s)) files)
              \<and> fs s2 = remaining s1 (take (length files - nat (snapshot_keep s)) files)))"
proof -
  have loop: "\<exists>s2. cleanup_loop qs u = (Inr (), s2)
       \<and> log s2 = log u @ attempts_log u [] qs
       \<and> attempted (attempts_log u [] qs) = qs
       \<and> fs s2 = remaining u qs
       \<and> (\<forall>p \<in> set qs. map_of (fs s2) p = (if removable u p then None else map_of (fs u) p))"
    for qs u
  proof -
    let ?s2 = "u\<lparr>fs := remaining u ([] @ qs), log := log u @ attempts_log u [] qs\<rparr>"
    have "cleanup_loop qs u = (Inr (), ?s2)"
      by (rule cleanup_loop_general) (simp_all add: remaining_Nil)
    moreover have "\<forall>p \<in> set qs. map_of (fs ?s2) p = (if removable u p then None else map_of (fs u) p)"
      by (simp add: map_of_remaining)
    ultimately show ?thesis
      using attempted_attempts_log [of u "[]" qs] by (intro exI [of _ ?s2]) simp
  qed
  have top: "cleanup s = cleanup_loop (take (length files - nat (snapshot_keep s)) files) s1
        \<and> (\<exists>s2. cleanup s = (Inr (), s2)
              \<and> log s2 = log s @ attempts_log s1 []
                                 (take (length files - nat (snapshot_keep s)) files)
              \<and> fs s2 = remaining s1 (take (length files - nat (snapshot_keep s)) files))"
    if a: "0 < snapshot_keep s \<and> list_all s = (Inr files, s1)"
  proof -
    let ?c = "take (length files - nat (snapshot_keep s)) files"
    have e: "cleanup s = cleanup_loop ?c s1" using a cleanup_is_loop by blast
    have l: "log s1 = log s" using a list_all_fields by blast
    from loop [of ?c s1] obtain s2 where
      "cleanup_loop ?c s1 = (Inr (), s2)" "log s2 = log s1 @ attempts_log s1 [] ?c"
      "fs s2 = remaining s1 ?c"
      by blast
    with e l show ?thesis by auto
  qed
  show ?thesis using loop [of ps s] top by blast
qed

theorem cleanup_isolates_failures_witness:
  "0 < snapshot_keep state_denied
   \<and> list_all state_denied = (Inr four_files, state_denied)
   \<and> (\<exists>s2. cleanup state_denied = (Inr (), s2)
         \<and> log s2 = [Deleting_old_snapshot [''/'', ''snap'', ''t1''],
                      Could_not_clean_up_snapshot ''t1'',
                      Deleting_old_snapshot [''/'', ''snap'', ''t2'']]
         \<and> map_of (fs s2) [''/'', ''snap'', ''t1''] = Some (RegularFile ''a'')
         \<and> map_of (fs s2) [''/'', ''snap'', ''t2''] = None)
   \<and> map_of (fs state_vanished) [''/'', ''snap'', ''t1''] = None
   \<and> (\<exists>s2. cleanup_loop [[''/'', ''snap'', ''t1''], [''/'', ''snap'', ''t2'']] state_vanished
               = (Inr (), s2)
         \<and> log s2 = [Deleting_old_snapshot [''/'', ''snap'', ''t1''],
                      Could_not_clean_up_snapshot ''t1'',
                      Deleting_old_snapshot [''/'', ''snap'', ''t2'']]
         \<and> map_of (fs s2) [''/'', ''snap'', ''t2''] = None)"
proof -
  let ?c = "[[''/'', ''snap'', ''t1''], [''/'', ''snap'', ''t2'']]"
  have h: "0 < snapshot_keep state_denied \<and> list_all state_denied = (Inr four_files, state_denied)"
    by code_simp
  have c: "take (length four_files - nat (snapshot_keep state_denied)) four_files = ?c"
    by code_simp
  have ld: "log state_denied @ attempts_log state_denied [] ?c
              = [Deleting_old_snapshot [''/'', ''snap'', ''t1''],
                 Could_not_clean_up_snapshot ''t1'',
                 Deleting_old_snapshot [''/'', ''snap'', ''t2'']]"
    by code_simp
  have rd: "\<not> removable state_denied [''/'', ''snap'', ''t1'']"
    "removable state_denied [''/'', ''snap'', ''t2'']"
    "map_of (fs state_denied) [''/'', ''snap'', ''t1''] = Some (RegularFile ''a'')"
    by code_simp+
  have lv: "log state_vanished @ attempts_log state_vanished [] ?c
              = [Deleting_old_snapshot [''/'', ''snap'', ''t1''],
                 Could_not_clean_up_snapshot ''t1'',
                 Deleting_old_snapshot [''/'', ''snap'', ''t2'']]"
    by code_simp
  have rv: "removable state_vanished [''/'', ''snap'', ''t2'']"
    "map_of (fs state_vanished) [''/'', ''snap'', ''t1''] = None"
    by code_simp+
  note td = cleanup_isolates_failures [of ?c state_denied four_files state_denied]
  note tv = cleanup_isolates_failures [of ?c state_vanished]
  from td h have e: "cleanup state_denied = cleanup_loop ?c state_denied"
    unfolding c by blast
  from td obtain sd where
    sd: "cleanup_loop ?c state_denied = (Inr (), sd)"
      "log sd = log state_denied @ attempts_log state_denied [] ?c"
      "\<forall>p \<in> set ?c. map_of (fs sd) p
          = (if removable state_denied p then None else map_of (fs state_denied) p)"
    by blast
  from tv obtain sv where
    sv: "cleanup_loop ?c state_vanished = (Inr (), sv)"
      "log sv = log state_vanished @ attempts_log state_vanished [] ?c"
      "\<forall>p \<in> set ?c. map_of (fs sv) p
          = (if removable state_vanished p then None else map_of (fs state_vanished) p)"
    by blast
  have "map_of (fs sd) [''/'', ''snap'', ''t1''] = Some (RegularFile ''a'')"
    "map_of (fs sd) [''/'', ''snap'', ''t2''] = None"
    using sd(3) rd by simp_all
  moreover have "map_of (fs sv) [''/'', ''snap'', ''t2''] = None"
    using sv(3) rv by simp
  ultimately show ?thesis
    using h e sd(1) sd(2) [unfolded ld] sv(1) sv(2) [unfolded lv] rv(2) by auto
qed

subsection \<open>What is left after a cleanup\<close>

text \<open>
  C1, amended: in a filesystem whose paths are distinct, with \<open>snapshot_keep = N > 0\<close>,
  \<open>M > N\<close> files listed and the removal of none of the \<open>M - N\<close> first ones refused, \<^verbatim>\<open>cleanup\<close> deletes exactly the first
  \<open>M - N\<close> files of the listing, in ascending order; afterwards the listing is the last
  \<open>N\<close> files, and the name of every deleted file is smaller than the name of every file
  that is left.
\<close>

theorem cleanup_keeps_newest:
  assumes wf: "distinct (map fst (fs s))" and keep: "0 < snapshot_keep s"
    and la: "list_all s = (Inr files, s1)"
    and more: "snapshot_keep s < int (length files)"
    and ok: "\<forall>p \<in> set (take (length files - nat (snapshot_keep s)) files). p \<notin> unlink_denied s"
  shows "\<exists>s2. cleanup s = (Inr (), s2)
           \<and> log s2 = log s @ map Deleting_old_snapshot
                                (take (length files - nat (snapshot_keep s)) files)
           \<and> list_all s2 = (Inr (drop (length files - nat (snapshot_keep s)) files), s2)
           \<and> int (length (drop (length files - nat (snapshot_keep s)) files)) = snapshot_keep s
           \<and> (\<forall>p \<in> set (take (length files - nat (snapshot_keep s)) files).
                 \<not> exists_path (fs s2) p
                 \<and> (\<forall>q \<in> set (drop (length files - nat (snapshot_keep s)) files). name p < name q))"
proof -
  let ?k = "length files - nat (snapshot_keep s)"
  let ?cands = "take ?k files"
  define F where
    "F = filter (\<lambda>(q, n). q \<notin> set ?cands \<or> q \<in> unlink_denied s) (fs s1)"
  let ?s2 = "s1\<lparr>fs := F, log := log s @ concat (map (attempt_log (unlink_denied s)) ?cands)\<rparr>"
  from list_all_Inr [OF la] obtain b where
    b: "get_base_path s = (Inr b, s1)" and files: "files = snapshots b (fs s1)" by blast
  have d: "distinct files"
    using get_base_path_distinct [OF b wf] files by (simp add: distinct_snapshots)
  have srt: "sorted files" using files sorted_snapshots by simp
  have mem: "p \<noteq> [] \<and> butlast p = b \<and> is_file (fs s1) p" if "p \<in> set files" for p
    using that files set_snapshots [of b "fs s1"] by simp
  have c: "cleanup s = (Inr (), ?s2)"
    unfolding F_def by (rule cleanup_result [OF wf keep la])
  have lg: "concat (map (attempt_log (unlink_denied s)) ?cands) = map Deleting_old_snapshot ?cands"
  proof -
    have "map (attempt_log (unlink_denied s)) ?cands = map (\<lambda>p. [Deleting_old_snapshot p]) ?cands"
      using ok by (intro map_cong) (simp_all add: attempt_log_allowed)
    then show ?thesis by (simp only: concat_map_singleton)
  qed
  have fl: "F = filter (\<lambda>(q, n). q \<notin> set ?cands) (fs s1)"
    unfolding F_def using ok by (intro filter_cong) auto
  have cf: "is_file (fs s1) p" if "p \<in> set ?cands" for p
    using mem [of p] that by (auto dest: in_set_takeD)
  have "list_all ?s2 = (Inr (filter (\<lambda>p. p \<notin> set ?cands) (snapshots b (fs s1))), ?s2)"
  proof (rule list_all_after_removal [OF b])
    show "is_file (fs s1) p" if "p \<in> set ?cands" for p using cf [OF that] .
    show "snapshot_path ?s2 = snapshot_path s1" by simp
    show "fs ?s2 = filter (\<lambda>(q, n). q \<notin> set ?cands) (fs s1)" using fl by simp
  qed
  then have l2: "list_all ?s2 = (Inr (drop ?k files), ?s2)"
    using files filter_not_in_take [OF d, of ?k] by simp
  have len: "int (length (drop ?k files)) = snapshot_keep s"
    using keep more by simp
  have gone: "\<not> exists_path (fs ?s2) p" if "p \<in> set ?cands" for p
  proof -
    have "\<not> is_root p" using cf [OF that] by (simp add: is_file_def)
    from not_exists_filter [OF that this, of "fs s1"] show ?thesis using fl by simp
  qed
  have older: "name p < name q" if "p \<in> set ?cands" "q \<in> set (drop ?k files)" for p q
  proof -
    have pq: "p < q" using strict_between_take_drop [OF srt d that] .
    have p: "p \<noteq> [] \<and> butlast p = b \<and> is_file (fs s1) p"
      using mem [of p] that(1) by (auto dest: in_set_takeD)
    have q: "q \<noteq> [] \<and> butlast q = b \<and> is_file (fs s1) q"
      using mem [of q] that(2) by (auto dest: in_set_dropD)
    have "last p < last q" using pq child_less_iff [of p q] p q by simp
    moreover have "name p = last p" using p name_child by blast
    moreover have "name q = last q" using q name_child by blast
    ultimately show ?thesis by simp
  qed
  show ?thesis
  proof (intro exI [of _ ?s2] conjI ballI)
    show "cleanup s = (Inr (), ?s2)" by (rule c)
    show "log ?s2 = log s @ map Deleting_old_snapshot ?cands" by (simp add: lg)
    show "list_all ?s2 = (Inr (drop ?k files), ?s2)" by (rule l2)
    show "int (length (drop ?k files)) = snapshot_keep s" by (rule len)
  next
    fix p assume "p \<in> set ?cands"
    then show "\<not> exists_path (fs ?s2) p" by (rule gone)
  next
    fix p q assume "p \<in> set ?cands" "q \<in> set (drop ?k files)"
    then show "name p < name q" by (rule older)
  qed
qed

theorem cleanup_keeps_newest_witness:
  "distinct (map fst (fs state_four)) \<and> 0 < snapshot_keep state_four
   \<and> list_all state_four = (Inr four_files, state_four)
   \<and> snapshot_keep state_four < int (length four_files)
   \<and> (\<exists>s2. cleanup state_four = (Inr (), s2)
         \<and> log s2 = [Deleting_old_snapshot [''/'', ''snap'', ''t1''],
                      Deleting_old_snapshot [''/'', ''snap'', ''t2'']]
         \<and> list_all s2 = (Inr [[''/'', ''snap'', ''t3''], [''/'', ''snap'', ''t4'']], s2))"
proof -
  have h: "distinct (map fst (fs state_four))" "0 < snapshot_keep state_four"
    "list_all state_four = (Inr four_files, state_four)"
    "snapshot_keep state_four < int (length four_files)"
    by code_simp+
  have ok: "\<forall>p \<in> set (take (length four_files - nat (snapshot_keep state_four)) four_files).
              p \<notin> unlink_denied state_four"
    by (simp add: state_four_def)
  have c: "log state_four @ map Deleting_old_snapshot
               (take (length four_files - nat (snapshot_keep state_four)) four_files)
             = [Deleting_old_snapshot [''/'', ''snap'', ''t1''],
                Deleting_old_snapshot [''/'', ''snap'', ''t2'']]"
    "drop (length four_files - nat (snapshot_keep state_four)) four_files
       = [[''/'', ''snap'', ''t3''], [''/'', ''snap'', ''t4'']]"
    by code_simp+
  from cleanup_keeps_newest [OF h ok] obtain s2 where
    "cleanup state_four = (Inr (), s2)"
    "log s2 = log state_four @ map Deleting_old_snapshot
               (take (length four_files - nat (snapshot_keep state_four)) four_files)"
    "list_all s2 = (Inr (drop (length four_files - nat (snapshot_keep state_four)) four_files), s2)"
    by blast
  then show ?thesis using h unfolding c by blast
qed

text \<open>
  C1 as stated fails where a removal is refused: with \<open>snapshot_keep = 2\<close> and the files
  \<open>t1\<close>, \<open>t2\<close>, \<open>t3\<close>, \<open>t4\<close>, of which \<open>t1\<close> cannot be removed, \<^verbatim>\<open>cleanup\<close> leaves
  three files.
\<close>

theorem cleanup_denied_counterexample:
  "snapshot_keep state_denied = 2
   \<and> fst (list_all state_denied) = Inr four_files
   \<and> fst (cleanup state_denied) = Inr ()
   \<and> fst (list_all (snd (cleanup state_denied)))
       = Inr [[''/'', ''snap'', ''t1''], [''/'', ''snap'', ''t3''], [''/'', ''snap'', ''t4'']]"
  by code_simp

subsection \<open>Allocating the next path\<close>

lemma strftime_same_second: "same_second t1 t2 \<Longrightarrow> strftime_jpg t1 = strftime_jpg t2"
  by (simp add: same_second_def strftime_jpg_def)

lemma get_next_path_Inr:
  assumes "get_next_path now s = (Inr p, s1)"
  shows "\<exists>b s0. get_base_path s = (Inr b, s0) \<and> p = b @ [strftime_jpg now]
           \<and> s1 = s0\<lparr>last_snapshot := Some (str_path p)\<rparr>"
proof (cases "get_base_path s")
  case (Pair r s0)
  show ?thesis
  proof (cases r)
    case (Inl e)
    with Pair assms show ?thesis by (simp add: get_next_path_def)
  next
    case (Inr b)
    with Pair assms show ?thesis by (auto simp: get_next_path_def Let_def)
  qed
qed

lemma get_next_path_eq:
  assumes "get_base_path s = (Inr b, s0)"
  shows "get_next_path now s
           = (Inr (b @ [strftime_jpg now]), s0\<lparr>last_snapshot := Some (str_path (b @ [strftime_jpg now]))\<rparr>)"
  using assms by (simp add: get_next_path_def Let_def)

lemma get_next_path_effect:
  assumes "get_next_path now s = (Inr p, s1)"
  shows "last_snapshot s1 = Some (str_path p)" "log s1 = log s"
    "is_file (fs s1) q = is_file (fs s) q"
    "exists_path (fs s) q \<Longrightarrow> exists_path (fs s1) q"
proof -
  from get_next_path_Inr [OF assms] obtain b s0 where
    h: "get_base_path s = (Inr b, s0)" "s1 = s0\<lparr>last_snapshot := Some (str_path p)\<rparr>"
    by blast
  show "last_snapshot s1 = Some (str_path p)" using h(2) by simp
  show "log s1 = log s" using h(2) get_base_path_fields [OF h(1)] by simp
  show "is_file (fs s1) q = is_file (fs s) q" using h(2) get_base_path_is_file [OF h(1)] by simp
  show "exists_path (fs s1) q" if "exists_path (fs s) q"
  proof (cases "is_root q")
    case True
    then show ?thesis by (simp add: exists_path_def)
  next
    case False
    with that obtain n where "map_of (fs s) q = Some n" by (auto simp: exists_path_def)
    from get_base_path_keeps [OF h(1) this] show ?thesis using h(2) by (simp add: exists_path_def)
  qed
qed

lemma exists_path_update:
  "exists_path f q \<Longrightarrow> exists_path (AList.update p v f) q"
  by (simp add: exists_path_def update_conv')

lemma open_wb_effect:
  assumes "open_wb p s = (r, s')"
  shows "last_snapshot s' = last_snapshot s" "log s' = log s"
    "exists_path (fs s) q \<Longrightarrow> exists_path (fs s') q"
proof -
  have "s' = s \<or> s' = s\<lparr>fs := AList.update p (RegularFile []) (fs s)\<rparr>"
    using assms by (auto simp: open_wb_def split: if_splits option.splits node.splits)
  then show "last_snapshot s' = last_snapshot s" "log s' = log s"
    "exists_path (fs s) q \<Longrightarrow> exists_path (fs s') q"
    by (auto simp: exists_path_update)
qed

lemma write_chunk_effect:
  "last_snapshot (write_chunk p c s) = last_snapshot s" "log (write_chunk p c s) = log s"
  "exists_path (fs s) q \<Longrightarrow> exists_path (fs (write_chunk p c s)) q"
proof -
  have "write_chunk p c s = s \<or> (\<exists>v. write_chunk p c s = s\<lparr>fs := AList.update p v (fs s)\<rparr>)"
    by (auto simp: write_chunk_def split: option.splits node.splits)
  then show "last_snapshot (write_chunk p c s) = last_snapshot s" "log (write_chunk p c s) = log s"
    "exists_path (fs s) q \<Longrightarrow> exists_path (fs (write_chunk p c s)) q"
    by (auto simp: exists_path_update)
qed

lemma write_chunks_effect:
  "last_snapshot (write_chunks p cs s) = last_snapshot s \<and> log (write_chunks p cs s) = log s
   \<and> (exists_path (fs s) q \<longrightarrow> exists_path (fs (write_chunks p cs s)) q)"
  by (induction cs arbitrary: s) (simp_all add: write_chunk_effect)

lemma digit_eq_iff: "digit a = digit b \<longleftrightarrow> a mod 10 = b mod 10"
proof -
  have d: "distinct ''0123456789''" by simp
  have "a mod 10 < length ''0123456789''" "b mod 10 < length ''0123456789''" by simp_all
  then show ?thesis unfolding digit_def using d nth_eq_iff_index_eq by blast
qed

lemma dec_small: "n < 10 \<Longrightarrow> dec n = [digit n]"
  by (subst dec.simps) simp

lemma dec_large: "10 \<le> n \<Longrightarrow> dec n = dec (n div 10) @ [digit n]"
  by (subst dec.simps) simp

lemma dec_four_digits:
  assumes "1000 \<le> y" "y \<le> 9999"
  shows "dec y = [digit (y div 1000), digit (y div 100), digit (y div 10), digit y]"
proof -
  have h: "y div 10 div 10 = y div 100" "y div 100 div 10 = y div 1000"
    by (simp_all add: div_mult2_eq [symmetric])
  have a: "dec y = dec (y div 10) @ [digit y]" using assms by (intro dec_large) simp
  have b: "dec (y div 10) = dec (y div 100) @ [digit (y div 10)]"
    using assms dec_large [of "y div 10"] by (simp add: h)
  have c: "dec (y div 100) = dec (y div 1000) @ [digit (y div 100)]"
    using assms dec_large [of "y div 100"] by (simp add: h)
  have d: "dec (y div 1000) = [digit (y div 1000)]"
    using assms by (intro dec_small) simp
  show ?thesis by (simp add: a b c d)
qed

lemma strftime_format:
  assumes "clock_reading t"
  shows "strftime_jpg t =
           [digit (year t div 1000), digit (year t div 100), digit (year t div 10), digit (year t),
            CHR ''-'', digit (month t div 10), digit (month t),
            CHR ''-'', digit (day t div 10), digit (day t),
            CHR '' '', digit (hour t div 10), digit (hour t),
            CHR '':'', digit (minute t div 10), digit (minute t),
            CHR '':'', digit (second t div 10), digit (second t)] @ ''.jpg''"
proof -
  have "dec (year t) = [digit (year t div 1000), digit (year t div 100), digit (year t div 10), digit (year t)]"
    using assms by (intro dec_four_digits) (simp_all add: clock_reading_def)
  then show ?thesis by (simp add: strftime_jpg_def two_digits_def)
qed

lemma two_digits_eq:
  assumes "a < 100" "b < 100" "(a div 10) mod 10 = (b div 10) mod 10" "a mod 10 = b mod (10 :: nat)"
  shows "a = b"
proof -
  have "a div 10 < 10" "b div 10 < 10" using assms(1,2) by simp_all
  then have "a div 10 = b div 10" using assms(3) by simp
  moreover have "a = 10 * (a div 10) + a mod 10" "b = 10 * (b div 10) + b mod 10" by simp_all
  ultimately show ?thesis using assms(4) by simp
qed

lemma digits_step:
  assumes "a div 10 = b div 10" "a mod 10 = b mod (10 :: nat)"
  shows "a = b"
proof -
  have "a = 10 * (a div 10) + a mod 10" "b = 10 * (b div 10) + b mod 10" by simp_all
  then show ?thesis using assms by simp
qed

lemma four_digits_eq:
  assumes "a \<le> 9999" "b \<le> 9999"
    "(a div 1000) mod 10 = (b div 1000) mod 10" "(a div 100) mod 10 = (b div 100) mod 10"
    "(a div 10) mod 10 = (b div 10) mod 10" "a mod 10 = b mod (10 :: nat)"
  shows "a = b"
proof -
  have "a div 1000 < 10" "b div 1000 < 10" using assms(1,2) by simp_all
  then have t: "a div 1000 = b div 1000" using assms(3) by simp
  have "a div 100 div 10 = b div 100 div 10" using t by (simp add: div_mult2_eq [symmetric])
  then have h: "a div 100 = b div 100" using assms(4) by (rule digits_step)
  have "a div 10 div 10 = b div 10 div 10" using h by (simp add: div_mult2_eq [symmetric])
  then have "a div 10 = b div 10" using assms(5) by (rule digits_step)
  then show ?thesis using assms(6) by (rule digits_step)
qed

lemma strftime_same_name:
  assumes "clock_reading t1" "clock_reading t2" "strftime_jpg t1 = strftime_jpg t2"
  shows "same_second t1 t2"
proof -
  from assms(3) have e:
    "(year t1 div 1000) mod 10 = (year t2 div 1000) mod 10"
    "(year t1 div 100) mod 10 = (year t2 div 100) mod 10"
    "(year t1 div 10) mod 10 = (year t2 div 10) mod 10"
    "year t1 mod 10 = year t2 mod 10"
    "(month t1 div 10) mod 10 = (month t2 div 10) mod 10" "month t1 mod 10 = month t2 mod 10"
    "(day t1 div 10) mod 10 = (day t2 div 10) mod 10" "day t1 mod 10 = day t2 mod 10"
    "(hour t1 div 10) mod 10 = (hour t2 div 10) mod 10" "hour t1 mod 10 = hour t2 mod 10"
    "(minute t1 div 10) mod 10 = (minute t2 div 10) mod 10" "minute t1 mod 10 = minute t2 mod 10"
    "(second t1 div 10) mod 10 = (second t2 div 10) mod 10" "second t1 mod 10 = second t2 mod 10"
    unfolding strftime_format [OF assms(1)] strftime_format [OF assms(2)]
    by (simp_all add: digit_eq_iff)
  have "year t1 = year t2"
    using assms(1,2) e(1-4) four_digits_eq [of "year t1" "year t2"] by (simp add: clock_reading_def)
  moreover have "month t1 = month t2"
    using assms(1,2) e(5,6) two_digits_eq [of "month t1" "month t2"] by (simp add: clock_reading_def)
  moreover have "day t1 = day t2"
    using assms(1,2) e(7,8) two_digits_eq [of "day t1" "day t2"] by (simp add: clock_reading_def)
  moreover have "hour t1 = hour t2"
    using assms(1,2) e(9,10) two_digits_eq [of "hour t1" "hour t2"] by (simp add: clock_reading_def)
  moreover have "minute t1 = minute t2"
    using assms(1,2) e(11,12) two_digits_eq [of "minute t1" "minute t2"] by (simp add: clock_reading_def)
  moreover have "second t1 = second t2"
    using assms(1,2) e(13,14) two_digits_eq [of "second t1" "second t2"] by (simp add: clock_reading_def)
  ultimately show ?thesis by (simp add: same_second_def)
qed

lemma digit_table: "map digit [0, 1, 2, 3, 4, 5, 6, 7, 8, 9] = ''0123456789''"
  by (simp add: digit_def)

lemma get_next_path_name:
  assumes "get_next_path now s = (Inr p, s1)"
  shows "p \<noteq> [] \<and> last p = strftime_jpg now"
  using get_next_path_Inr [OF assms] by auto

text \<open>
  C6: where the base path resolves, \<^verbatim>\<open>get_next_path\<close> returns the base path extended by
  the name of the clock reading, and afterwards \<open>last_snapshot\<close> holds the string of
  exactly that path, whatever it held before. The name is the year in four decimal
  digits, the month, the day, the hour, the minute and the second in two digits each,
  written \<open>YYYY-mm-dd HH:MM:SS\<close>, and the extension \<open>.jpg\<close>. Two calls under the same
  configured path whose clock readings differ at most in the microseconds return the
  same path, and \<open>last_snapshot\<close> holds it after the second; two calls that return the
  same path have readings in the same second.
\<close>

theorem get_next_path_timestamp:
  "(snapshot_path s = Some str \<and> str \<noteq> [] \<and> \<not> blocked [] (Path str) (fs s) \<longrightarrow>
      (\<exists>s1. get_next_path now s = (Inr (Path str @ [strftime_jpg now]), s1)
         \<and> last_snapshot s1 = Some (str_path (Path str @ [strftime_jpg now]))))
   \<and> (get_next_path t1 s = (Inr p1, s1) \<and> get_next_path t2 s' = (Inr p2, s2)
        \<and> snapshot_path s' = snapshot_path s \<and> same_second t1 t2 \<longrightarrow>
          p2 = p1 \<and> last_snapshot s2 = Some (str_path p1))
   \<and> (clock_reading now \<longrightarrow>
        strftime_jpg now =
          [digit (year now div 1000), digit (year now div 100), digit (year now div 10),
           digit (year now),
           CHR ''-'', digit (month now div 10), digit (month now),
           CHR ''-'', digit (day now div 10), digit (day now),
           CHR '' '', digit (hour now div 10), digit (hour now),
           CHR '':'', digit (minute now div 10), digit (minute now),
           CHR '':'', digit (second now div 10), digit (second now)] @ ''.jpg'')
   \<and> map digit [0, 1, 2, 3, 4, 5, 6, 7, 8, 9] = ''0123456789''
   \<and> digit n = digit (n mod 10)
   \<and> (get_next_path t1 s = (Inr p1, s1) \<and> get_next_path t2 s' = (Inr p2, s2)
        \<and> clock_reading t1 \<and> clock_reading t2 \<and> p2 = p1 \<longrightarrow> same_second t1 t2)"
proof (intro conjI impI)
  assume a: "snapshot_path s = Some str \<and> str \<noteq> [] \<and> \<not> blocked [] (Path str) (fs s)"
  then obtain s0 where "get_base_path s = (Inr (Path str), s0)"
    using get_base_path_creates [of s str] by blast
  from get_next_path_eq [OF this, of now]
  show "\<exists>s1. get_next_path now s = (Inr (Path str @ [strftime_jpg now]), s1)
          \<and> last_snapshot s1 = Some (str_path (Path str @ [strftime_jpg now]))"
    by simp
next
  assume a: "get_next_path t1 s = (Inr p1, s1) \<and> get_next_path t2 s' = (Inr p2, s2)
               \<and> snapshot_path s' = snapshot_path s \<and> same_second t1 t2"
  from a get_next_path_Inr [of t1 s p1 s1] obtain b1 u1 where
    b1: "get_base_path s = (Inr b1, u1)" "p1 = b1 @ [strftime_jpg t1]" by blast
  from a get_next_path_Inr [of t2 s' p2 s2] obtain b2 u2 where
    b2: "get_base_path s' = (Inr b2, u2)" "p2 = b2 @ [strftime_jpg t2]" by blast
  from get_base_path_Inr [OF b1(1)] get_base_path_Inr [OF b2(1)] a have "b1 = b2" by auto
  moreover from a have "strftime_jpg t1 = strftime_jpg t2" by (simp add: strftime_same_second)
  ultimately show p: "p2 = p1" using b1(2) b2(2) by simp
  from a get_next_path_effect(1) [of t2 s' p2 s2] p
  show "last_snapshot s2 = Some (str_path p1)" by simp
next
  assume "clock_reading now"
  then show "strftime_jpg now =
          [digit (year now div 1000), digit (year now div 100), digit (year now div 10),
           digit (year now),
           CHR ''-'', digit (month now div 10), digit (month now),
           CHR ''-'', digit (day now div 10), digit (day now),
           CHR '' '', digit (hour now div 10), digit (hour now),
           CHR '':'', digit (minute now div 10), digit (minute now),
           CHR '':'', digit (second now div 10), digit (second now)] @ ''.jpg''"
    by (rule strftime_format)
next
  show "map digit [0, 1, 2, 3, 4, 5, 6, 7, 8, 9] = ''0123456789''" by (rule digit_table)
  show "digit n = digit (n mod 10)" by (simp add: digit_def)
next
  assume a: "get_next_path t1 s = (Inr p1, s1) \<and> get_next_path t2 s' = (Inr p2, s2)
               \<and> clock_reading t1 \<and> clock_reading t2 \<and> p2 = p1"
  then have "last p1 = strftime_jpg t1" "last p2 = strftime_jpg t2"
    using get_next_path_name by blast+
  with a have "strftime_jpg t1 = strftime_jpg t2" by simp
  with a show "same_second t1 t2" using strftime_same_name by blast
qed

lemma strftime_morning: "strftime_jpg morning = ''2024-03-09 07:05:59.jpg''"
  by (simp add: strftime_jpg_def morning_def dec.simps two_digits_def digit_def)

lemma get_base_path_state_four: "get_base_path state_four = (Inr snap_dir, state_four)"
  by code_simp

lemma get_next_path_state_four:
  "get_next_path morning state_four
     = (Inr morning_path, state_four\<lparr>last_snapshot := Some ''/snap/2024-03-09 07:05:59.jpg''\<rparr>)"
proof -
  have "snap_dir @ [''2024-03-09 07:05:59.jpg''] = morning_path" by code_simp
  moreover have "str_path morning_path = ''/snap/2024-03-09 07:05:59.jpg''" by code_simp
  ultimately show ?thesis
    using get_next_path_eq [OF get_base_path_state_four, of morning] by (simp add: strftime_morning)
qed

theorem get_next_path_timestamp_witness:
  "clock_reading morning \<and> clock_reading morning_later
   \<and> strftime_jpg morning = ''2024-03-09 07:05:59.jpg''
   \<and> same_second morning morning_later
   \<and> (\<exists>s1 s2. get_next_path morning state_four = (Inr morning_path, s1)
         \<and> last_snapshot s1 = Some ''/snap/2024-03-09 07:05:59.jpg''
         \<and> get_next_path morning_later s1 = (Inr morning_path, s2)
         \<and> last_snapshot s2 = Some ''/snap/2024-03-09 07:05:59.jpg'')"
proof -
  let ?s1 = "state_four\<lparr>last_snapshot := Some ''/snap/2024-03-09 07:05:59.jpg''\<rparr>"
  have cr: "clock_reading morning" "clock_reading morning_later"
    by (simp_all add: clock_reading_def morning_def morning_later_def)
  have t: "same_second morning morning_later"
    by (simp add: same_second_def morning_def morning_later_def)
  have q: "str_path morning_path = ''/snap/2024-03-09 07:05:59.jpg''" by code_simp
  have h: "snapshot_path ?s1 = Some ''/snap'' \<and> ''/snap'' \<noteq> []
             \<and> \<not> blocked [] (Path ''/snap'') (fs ?s1)"
    by code_simp
  have c: "snapshot_path ?s1 = snapshot_path state_four" by simp
  from get_next_path_timestamp [where now = morning] cr(1)
  have n: "strftime_jpg morning = ''2024-03-09 07:05:59.jpg''"
    by (simp add: morning_def digit_def)
  from get_next_path_timestamp [where s = ?s1 and str = "''/snap''" and now = morning_later] h
  obtain s2 where
    s2: "get_next_path morning_later ?s1 = (Inr (Path ''/snap'' @ [strftime_jpg morning_later]), s2)"
    by blast
  from get_next_path_timestamp [where ?t1.0 = morning and s = state_four
      and ?p1.0 = morning_path and ?s1.0 = ?s1 and ?t2.0 = morning_later and s' = ?s1
      and ?p2.0 = "Path ''/snap'' @ [strftime_jpg morning_later]" and ?s2.0 = s2]
    get_next_path_state_four s2 c t
  have r: "Path ''/snap'' @ [strftime_jpg morning_later] = morning_path
          \<and> last_snapshot s2 = Some (str_path morning_path)" by blast
  with s2 have s2': "get_next_path morning_later ?s1 = (Inr morning_path, s2)
                  \<and> last_snapshot s2 = Some ''/snap/2024-03-09 07:05:59.jpg''"
    by (simp add: q)
  from get_next_path_timestamp [where ?t1.0 = morning and s = state_four
      and ?p1.0 = morning_path and ?s1.0 = ?s1 and ?t2.0 = morning_later and s' = ?s1
      and ?p2.0 = morning_path and ?s2.0 = s2]
    get_next_path_state_four s2' cr
  have "same_second morning morning_later" by blast
  moreover have "last_snapshot ?s1 = Some ''/snap/2024-03-09 07:05:59.jpg''" by simp
  ultimately show ?thesis using cr n s2' get_next_path_state_four by blast
qed

subsection \<open>Failing captures\<close>

lemma get_next_path_frame:
  assumes "get_next_path now s = (r, s1)"
  shows "log s1 = log s" "is_file (fs s1) q = is_file (fs s) q"
    "exists_path (fs s) q \<Longrightarrow> exists_path (fs s1) q"
proof -
  obtain r0 s0 where g: "get_base_path s = (r0, s0)" by (cases "get_base_path s")
  have "s1 = s0 \<or> (\<exists>v. s1 = s0\<lparr>last_snapshot := v\<rparr>)"
    using assms g by (cases r0) (auto simp: get_next_path_def Let_def)
  then have f: "fs s1 = fs s0" "log s1 = log s0" by auto
  show "log s1 = log s" using f get_base_path_fields [OF g] by simp
  show "is_file (fs s1) q = is_file (fs s) q" using f get_base_path_is_file [OF g] by simp
  show "exists_path (fs s1) q" if "exists_path (fs s) q"
  proof (cases "is_root q")
    case True
    then show ?thesis by (simp add: exists_path_def)
  next
    case False
    with that obtain n where "map_of (fs s) q = Some n" by (auto simp: exists_path_def)
    from get_base_path_keeps [OF g this] show ?thesis using f by (simp add: exists_path_def)
  qed
qed

lemma url_broken:
  assumes "broken resp"
  shows "\<exists>e s'. url_snapshot_call (Inr resp) now s = (Inl e, s') \<and> log s' = log s
           \<and> (\<forall>q. exists_path (fs s) q \<longrightarrow> exists_path (fs s') q)
           \<and> (\<forall>p s1. get_next_path now s = (Inr p, s1) \<longrightarrow> last_snapshot s' = last_snapshot s1)"
proof -
  obtain r s1 where g: "get_next_path now s = (r, s1)" by (cases "get_next_path now s")
  note f = get_next_path_frame [OF g]
  show ?thesis
  proof (cases r)
    case (Inl e)
    with g have "url_snapshot_call (Inr resp) now s = (Inl e, s1)"
      by (simp add: url_snapshot_call_def)
    with f g Inl show ?thesis by auto
  next
    case (Inr p)
    obtain r2 s2 where o: "open_wb p s1 = (r2, s2)" by (cases "open_wb p s1")
    note oe = open_wb_effect [OF o]
    show ?thesis
    proof (cases r2)
      case (Inl e)
      with g Inr o have "url_snapshot_call (Inr resp) now s = (Inl e, s2)"
        by (simp add: url_snapshot_call_def)
      with f oe g Inr show ?thesis by auto
    next
      case (Inr u)
      let ?s3 = "write_chunks p (chunks resp) s2"
      from g \<open>r = Inr p\<close> o Inr assms
      have "url_snapshot_call (Inr resp) now s = (Inl RequestException, ?s3)"
        by (simp add: url_snapshot_call_def Let_def)
      moreover have "log ?s3 = log s" "last_snapshot ?s3 = last_snapshot s1"
        using write_chunks_effect [of p "chunks resp" s2] oe f by simp_all
      moreover have "exists_path (fs ?s3) q" if "exists_path (fs s) q" for q
        using write_chunks_effect [of p "chunks resp" s2 q] oe(3) [of q] f(3) [OF that] by simp
      ultimately show ?thesis using g \<open>r = Inr p\<close> by auto
    qed
  qed
qed

lemma picam_failed:
  "\<exists>e s'. picam_snapshot_call (CaptureFailed left) now s = (Inl e, s') \<and> log s' = log s
     \<and> (\<forall>q. exists_path (fs s) q \<longrightarrow> exists_path (fs s') q)
     \<and> (\<forall>p s1. get_next_path now s = (Inr p, s1) \<longrightarrow> last_snapshot s' = last_snapshot s1)
     \<and> (left = None \<longrightarrow> (\<forall>q. is_file (fs s') q = is_file (fs s) q))"
proof -
  obtain r s1 where g: "get_next_path now s = (r, s1)" by (cases "get_next_path now s")
  note f = get_next_path_frame [OF g]
  show ?thesis
  proof (cases r)
    case (Inl e)
    with g have "picam_snapshot_call (CaptureFailed left) now s = (Inl e, s1)"
      by (simp add: picam_snapshot_call_def)
    with f g Inl show ?thesis by auto
  next
    case (Inr p)
    show ?thesis
    proof (cases left)
      case None
      with g Inr have "picam_snapshot_call (CaptureFailed left) now s = (Inl PiCameraError, s1)"
        by (simp add: picam_snapshot_call_def)
      with f g Inr None show ?thesis by auto
    next
      case (Some bytes)
      obtain r2 s2 where o: "open_wb p s1 = (r2, s2)" by (cases "open_wb p s1")
      note oe = open_wb_effect [OF o]
      show ?thesis
      proof (cases r2)
        case (Inl e)
        with g Inr Some o have "picam_snapshot_call (CaptureFailed left) now s = (Inl e, s2)"
          by (simp add: picam_snapshot_call_def)
        with f oe g Inr Some show ?thesis by auto
      next
        case (Inr u)
        let ?s3 = "write_chunk p bytes s2"
        from g \<open>r = Inr p\<close> Some o Inr
        have "picam_snapshot_call (CaptureFailed left) now s = (Inl PiCameraError, ?s3)"
          by (simp add: picam_snapshot_call_def)
        moreover have "log ?s3 = log s" "last_snapshot ?s3 = last_snapshot s1"
          using write_chunk_effect(1,2) [of p bytes s2] oe f by simp_all
        moreover have "exists_path (fs ?s3) q" if "exists_path (fs s) q" for q
          using write_chunk_effect(3) [of s2 q p bytes] oe(3) [of q] f(3) [OF that] by simp
        ultimately show ?thesis using g \<open>r = Inr p\<close> Some by auto
      qed
    qed
  qed
qed

text \<open>
  C7, amended: when the capture fails, the action raises and no cleanup takes place:
  nothing is logged and every node that existed still exists. When
  \<^verbatim>\<open>requests.get\<close> raises or the camera cannot be opened, the state is untouched
  altogether; when the camera's capture raises having written nothing, the regular files
  are the ones there were.
\<close>

theorem capture_failure_skips_cleanup:
  "url_snapshot_call (Inl e) now s = (Inl e, s)
   \<and> picam_snapshot_call CameraUnavailable now s = (Inl PiCameraError, s)
   \<and> (broken resp \<longrightarrow>
        (\<exists>e' s'. url_snapshot_call (Inr resp) now s = (Inl e', s') \<and> log s' = log s
           \<and> (\<forall>q. exists_path (fs s) q \<longrightarrow> exists_path (fs s') q)))
   \<and> (\<exists>e' s'. picam_snapshot_call (CaptureFailed left) now s = (Inl e', s') \<and> log s' = log s
         \<and> (\<forall>q. exists_path (fs s) q \<longrightarrow> exists_path (fs s') q))
   \<and> (\<exists>e' s'. picam_snapshot_call (CaptureFailed None) now s = (Inl e', s')
         \<and> (\<forall>q. is_file (fs s') q = is_file (fs s) q))"
proof (intro conjI impI)
  show "url_snapshot_call (Inl e) now s = (Inl e, s)" by (simp add: url_snapshot_call_def)
  show "picam_snapshot_call CameraUnavailable now s = (Inl PiCameraError, s)"
    by (simp add: picam_snapshot_call_def)
  show "\<exists>e' s'. url_snapshot_call (Inr resp) now s = (Inl e', s') \<and> log s' = log s
          \<and> (\<forall>q. exists_path (fs s) q \<longrightarrow> exists_path (fs s') q)" if "broken resp"
    using url_broken [OF that, of now s] by blast
  show "\<exists>e' s'. picam_snapshot_call (CaptureFailed left) now s = (Inl e', s') \<and> log s' = log s
          \<and> (\<forall>q. exists_path (fs s) q \<longrightarrow> exists_path (fs s') q)"
    using picam_failed [of left now s] by blast
  show "\<exists>e' s'. picam_snapshot_call (CaptureFailed None) now s = (Inl e', s')
          \<and> (\<forall>q. is_file (fs s') q = is_file (fs s) q)"
    using picam_failed [of None now s] by blast
qed

theorem capture_failure_skips_cleanup_witness:
  "broken broken_response
   \<and> (\<exists>e' s'. url_snapshot_call (Inr broken_response) morning state_four = (Inl e', s')
         \<and> log s' = [] \<and> exists_path (fs s') [''/'', ''snap'', ''t1''])
   \<and> \<not> exists_path (fs (snd (cleanup state_four))) [''/'', ''snap'', ''t1'']"
proof -
  have b: "broken broken_response" by code_simp
  have l: "log state_four = []" by code_simp
  have x: "exists_path (fs state_four) [''/'', ''snap'', ''t1'']" by code_simp
  have c: "\<not> exists_path (fs (snd (cleanup state_four))) [''/'', ''snap'', ''t1'']" by code_simp
  from capture_failure_skips_cleanup [of _ morning state_four broken_response] b
  obtain e' s' where
    "url_snapshot_call (Inr broken_response) morning state_four = (Inl e', s')"
    "log s' = log state_four"
    "\<forall>q. exists_path (fs state_four) q \<longrightarrow> exists_path (fs s') q"
    by blast
  with l x have "\<exists>e' s'. url_snapshot_call (Inr broken_response) morning state_four = (Inl e', s')
                   \<and> log s' = [] \<and> exists_path (fs s') [''/'', ''snap'', ''t1'']"
    by auto
  with b c show ?thesis by blast
qed

text \<open>
  C7 as stated fails for a download that breaks while it is streamed: the output file has
  been opened by then, so a new file with the chunks received so far exists at the
  allocated path.
\<close>

theorem broken_download_counterexample:
  "broken broken_response
   \<and> \<not> exists_path (fs state_four) morning_path
   \<and> fst (url_snapshot_call (Inr broken_response) morning state_four) = Inl RequestException
   \<and> is_file (fs (snd (url_snapshot_call (Inr broken_response) morning state_four))) morning_path"
proof -
  let ?s1 = "state_four\<lparr>last_snapshot := Some ''/snap/2024-03-09 07:05:59.jpg''\<rparr>"
  let ?rest = "case open_wb morning_path ?s1 of
                 (Inl e, s2) \<Rightarrow> (Inl e, s2)
               | (Inr u, s2) \<Rightarrow>
                   (let s3 = write_chunks morning_path (chunks broken_response) s2
                    in if broken broken_response then (Inl RequestException, s3) else cleanup s3)"
  have e: "url_snapshot_call (Inr broken_response) morning state_four = ?rest"
    by (simp add: url_snapshot_call_def get_next_path_state_four)
  have "broken broken_response \<and> \<not> exists_path (fs state_four) morning_path
          \<and> fst ?rest = Inl RequestException \<and> is_file (fs (snd ?rest)) morning_path"
    by code_simp
  then show ?thesis unfolding e .
qed

text \<open>
  C10: \<^verbatim>\<open>get_next_path\<close> stores the path in \<open>last_snapshot\<close> and creates no file. When
  the capture or the download then fails, the action raises and \<open>last_snapshot\<close> still
  holds the allocated path; after a capture that wrote nothing, there is a file at that
  path only if there was one before.
\<close>

theorem last_snapshot_set_at_allocation:
  assumes "get_next_path now s = (Inr p, s1)"
  shows "last_snapshot s1 = Some (str_path p)
         \<and> (\<forall>q. is_file (fs s1) q = is_file (fs s) q)
         \<and> (\<exists>e s'. picam_snapshot_call (CaptureFailed left) now s = (Inl e, s')
               \<and> last_snapshot s' = Some (str_path p))
         \<and> (broken resp \<longrightarrow>
              (\<exists>e s'. url_snapshot_call (Inr resp) now s = (Inl e, s')
                 \<and> last_snapshot s' = Some (str_path p)))
         \<and> (\<exists>e s'. picam_snapshot_call (CaptureFailed None) now s = (Inl e, s')
               \<and> last_snapshot s' = Some (str_path p) \<and> is_file (fs s') p = is_file (fs s) p)"
proof (intro conjI impI allI)
  show a: "last_snapshot s1 = Some (str_path p)" using get_next_path_effect(1) [OF assms] .
  show "is_file (fs s1) q = is_file (fs s) q" for q using get_next_path_effect(3) [OF assms] .
  show "\<exists>e s'. picam_snapshot_call (CaptureFailed left) now s = (Inl e, s')
          \<and> last_snapshot s' = Some (str_path p)"
    using picam_failed [of left now s] assms a by auto
  show "\<exists>e s'. url_snapshot_call (Inr resp) now s = (Inl e, s')
          \<and> last_snapshot s' = Some (str_path p)" if "broken resp"
    using url_broken [OF that, of now s] assms a by auto
  show "\<exists>e s'. picam_snapshot_call (CaptureFailed None) now s = (Inl e, s')
          \<and> last_snapshot s' = Some (str_path p) \<and> is_file (fs s') p = is_file (fs s) p"
    using picam_failed [of None now s] assms a by auto
qed

theorem last_snapshot_set_at_allocation_witness:
  "get_next_path morning state_four
     = (Inr morning_path, state_four\<lparr>last_snapshot := Some ''/snap/2024-03-09 07:05:59.jpg''\<rparr>)
   \<and> (\<exists>e s'. picam_snapshot_call (CaptureFailed None) morning state_four = (Inl e, s')
         \<and> last_snapshot s' = Some ''/snap/2024-03-09 07:05:59.jpg''
         \<and> \<not> is_file (fs s') morning_path)"
proof -
  have q: "str_path morning_path = ''/snap/2024-03-09 07:05:59.jpg''" by code_simp
  have n: "\<not> is_file (fs state_four) morning_path" by code_simp
  from last_snapshot_set_at_allocation [OF get_next_path_state_four] obtain e s' where
    "picam_snapshot_call (CaptureFailed None) morning state_four = (Inl e, s')"
    "last_snapshot s' = Some (str_path morning_path)"
    "is_file (fs s') morning_path = is_file (fs state_four) morning_path"
    by blast
  with q n get_next_path_state_four show ?thesis by auto
qed

end
